theory Spec2Isabelle
  imports Main
begin

section \<open>Strings and character classes\<close>

text \<open>
  A JavaScript string is a sequence of UTF-16 code units. The model uses \<^typ>\<open>string\<close>,
  whose characters are 8 bits wide, so it covers the texts whose code units lie in 0..255
  (ASCII and Latin-1). On that range the classes of the regular expressions of
  \<^verbatim>\<open>extension.ts\<close> are the following.
\<close>

definition isWhitespace :: "char \<Rightarrow> bool" where
  \<comment> \<open>\<^verbatim>\<open>\s\<close>: TAB, LF, VT, FF, CR, SPACE, NBSP\<close>
  "isWhitespace c \<longleftrightarrow>
     c \<in> set [CHR 0x09, CHR 0x0A, CHR 0x0B, CHR 0x0C, CHR 0x0D, CHR 0x20, CHR 0xA0]"

definition isDigit :: "char \<Rightarrow> bool" where
  \<comment> \<open>\<^verbatim>\<open>\d\<close>\<close>
  "isDigit c \<longleftrightarrow> c \<in> set ''0123456789''"

definition isLineTerminator :: "char \<Rightarrow> bool" where
  \<comment> \<open>the characters that \<^verbatim>\<open>.\<close> does not match\<close>
  "isLineTerminator c \<longleftrightarrow> c \<in> set [CHR 0x0A, CHR 0x0D]"

definition isDelimiter :: "char \<Rightarrow> bool" where
  \<comment> \<open>\<^verbatim>\<open>/[{}()\[\];,.]/\<close>\<close>
  "isDelimiter c \<longleftrightarrow> c \<in> set ''{}()[];,.''"

definition isWordChar :: "char \<Rightarrow> bool" where
  \<comment> \<open>\<^verbatim>\<open>/[a-zA-Z0-9_]/\<close>\<close>
  "isWordChar c \<longleftrightarrow>
     c \<in> set ''abcdefghijklmnopqrstuvwxyzABCDEFGHIJKLMNOPQRSTUVWXYZ0123456789_''"

definition toUpperAscii :: "char \<Rightarrow> char" where
  "toUpperAscii c =
     (case map_of (zip ''abcdefghijklmnopqrstuvwxyz'' ''ABCDEFGHIJKLMNOPQRSTUVWXYZ'') c of
        Some u \<Rightarrow> u | None \<Rightarrow> c)"

definition toLowerAscii :: "char \<Rightarrow> char" where
  "toLowerAscii c =
     (case map_of (zip ''ABCDEFGHIJKLMNOPQRSTUVWXYZ'' ''abcdefghijklmnopqrstuvwxyz'') c of
        Some l \<Rightarrow> l | None \<Rightarrow> c)"

definition canonicalize :: "bool \<Rightarrow> char \<Rightarrow> char" where
  \<comment> \<open>Case folding of a regular expression with the \<^verbatim>\<open>i\<close> flag (and without \<^verbatim>\<open>u\<close>).
      A code unit of 128 or more is never folded onto an ASCII one, and every literal of
      the patterns is ASCII, so only the ASCII letters matter.\<close>
  "canonicalize ignoreCase c = (if ignoreCase then toUpperAscii c else c)"

definition trim :: "string \<Rightarrow> string" where
  \<comment> \<open>\<^verbatim>\<open>String.prototype.trim\<close>\<close>
  "trim s = rev (dropWhile isWhitespace (rev (dropWhile isWhitespace s)))"

fun includesStr :: "string \<Rightarrow> string \<Rightarrow> bool" where
  \<comment> \<open>\<^verbatim>\<open>String.prototype.includes\<close>\<close>
  "includesStr [] needle = (needle = [])"
| "includesStr (c # cs) needle = (take (length needle) (c # cs) = needle \<or> includesStr cs needle)"

definition toLowerCase :: "string \<Rightarrow> string" where
  \<comment> \<open>\<^verbatim>\<open>String.prototype.toLowerCase\<close>, as far as the ASCII letters go: no other
      code unit below 256 is mapped to an ASCII letter\<close>
  "toLowerCase s = map toLowerAscii s"

definition digitValue :: "char \<Rightarrow> int" where
  "digitValue c = (case map_of (zip ''0123456789'' [0, 1, 2, 3, 4, 5, 6, 7, 8, 9]) c of
                     Some v \<Rightarrow> v | None \<Rightarrow> 0)"

definition parseInt :: "string \<Rightarrow> int" where
  \<comment> \<open>\<^verbatim>\<open>parseInt\<close> on the text of a group \<^verbatim>\<open>(\d+)\<close>, the only strings it is applied to
      (lemma \<open>exec_digit_groups\<close> below): the decimal value. JavaScript rounds values from
      \<open>2^53\<close> on to a double; both uses are clamped to a position of the document right
      away, and the rounding does not change the clamped value.\<close>
  "parseInt ds = foldl (\<lambda>n c. 10 * n + digitValue c) 0 ds"


section \<open>The regular expressions\<close>

datatype charclass = Digit | Space | Dot | NotQuote

fun inClass :: "charclass \<Rightarrow> char \<Rightarrow> bool" where
  "inClass Digit c = isDigit c"
| "inClass Space c = isWhitespace c"
| "inClass Dot c = (\<not> isLineTerminator c)"
| "inClass NotQuote c = (c \<noteq> CHR 0x22)"

datatype regex =
    Lit string              \<comment> \<open>a run of literal characters\<close>
  | Cls charclass           \<comment> \<open>\<^verbatim>\<open>\d\<close>, \<^verbatim>\<open>\s\<close>, \<^verbatim>\<open>.\<close>, \<^verbatim>\<open>[^"]\<close>\<close>
  | Seq regex regex
  | Alt regex regex         \<comment> \<open>\<^verbatim>\<open>a|b\<close>, left alternative first\<close>
  | Star regex              \<comment> \<open>\<^verbatim>\<open>a*\<close>, greedy\<close>
  | Plus regex              \<comment> \<open>\<^verbatim>\<open>a+\<close>, greedy\<close>
  | PlusLazy regex          \<comment> \<open>\<^verbatim>\<open>a+?\<close>\<close>
  | Group nat regex         \<comment> \<open>capturing group number n\<close>
  | EndOfInput              \<comment> \<open>\<^verbatim>\<open>$\<close> without the \<^verbatim>\<open>m\<close> flag\<close>

text \<open>
  A matcher state is the input that is left and the captures made so far. A matcher
  returns every state it can end in, in the order in which backtracking tries them:
  the first element is the match that JavaScript reports.
\<close>

type_synonym mstate = "string \<times> (nat \<times> string) list"

fun matchLit :: "bool \<Rightarrow> string \<Rightarrow> string \<Rightarrow> string option" where
  "matchLit ic [] s = Some s"
| "matchLit ic (p # ps) [] = None"
| "matchLit ic (p # ps) (c # cs) =
     (if canonicalize ic p = canonicalize ic c then matchLit ic ps cs else None)"

definition progress :: "mstate \<Rightarrow> mstate \<Rightarrow> bool" where
  "progress st st' \<longleftrightarrow> length (fst st') < length (fst st)"

primrec repeatGreedy :: "(mstate \<Rightarrow> mstate list) \<Rightarrow> nat \<Rightarrow> mstate \<Rightarrow> mstate list" where
  "repeatGreedy m 0 st = [st]"
| "repeatGreedy m (Suc n) st =
     concat (map (repeatGreedy m n) (filter (progress st) (m st))) @ [st]"

primrec repeatLazy :: "(mstate \<Rightarrow> mstate list) \<Rightarrow> nat \<Rightarrow> mstate \<Rightarrow> mstate list" where
  "repeatLazy m 0 st = [st]"
| "repeatLazy m (Suc n) st =
     st # concat (map (repeatLazy m n) (filter (progress st) (m st)))"

primrec rmatch :: "bool \<Rightarrow> regex \<Rightarrow> mstate \<Rightarrow> mstate list" where
  "rmatch ic (Lit ps) st =
     (case matchLit ic ps (fst st) of None \<Rightarrow> [] | Some rest \<Rightarrow> [(rest, snd st)])"
| "rmatch ic (Cls k) st =
     (case fst st of [] \<Rightarrow> []
      | c # rest \<Rightarrow> if inClass k c then [(rest, snd st)] else [])"
| "rmatch ic (Seq a b) st = concat (map (rmatch ic b) (rmatch ic a st))"
| "rmatch ic (Alt a b) st = rmatch ic a st @ rmatch ic b st"
| "rmatch ic (Star a) st = repeatGreedy (rmatch ic a) (length (fst st)) st"
| "rmatch ic (Plus a) st =
     concat (map (repeatGreedy (rmatch ic a) (length (fst st))) (rmatch ic a st))"
| "rmatch ic (PlusLazy a) st =
     concat (map (repeatLazy (rmatch ic a) (length (fst st))) (rmatch ic a st))"
| "rmatch ic (Group n a) st =
     map (\<lambda>st'. (fst st', (n, take (length (fst st) - length (fst st')) (fst st)) # snd st'))
         (rmatch ic a st)"
| "rmatch ic EndOfInput st = (if fst st = [] then [st] else [])"

fun seqs :: "regex list \<Rightarrow> regex" where
  "seqs [] = Lit []"
| "seqs [r] = r"
| "seqs (r # rs) = Seq r (seqs rs)"

fun alts :: "regex list \<Rightarrow> regex" where
  "alts [] = Lit []"
| "alts [r] = r"
| "alts (r # rs) = Alt r (alts rs)"

record pattern =
  source :: regex
  ignoreCase :: bool

definition lineColumnMessageTail :: "regex list" where
  \<comment> \<open>\<^verbatim>\<open>line\s+(\d+),\s+column\s+(\d+):\<close>\<close>
  "lineColumnMessageTail =
     [Lit ''line'', Plus (Cls Space), Group 1 (Plus (Cls Digit)), Lit '','', Plus (Cls Space),
      Lit ''column'', Plus (Cls Space), Group 2 (Plus (Cls Digit)), Lit '':'']"

definition messageToLineEnd :: "regex list" where
  \<comment> \<open>\<^verbatim>\<open>(.+?)(?:\n|$)\<close>\<close>
  "messageToLineEnd = [Group 3 (PlusLazy (Cls Dot)), Alt (Lit [CHR 0x0A]) EndOfInput]"

definition pattern1 :: pattern where
  \<comment> \<open>\<^verbatim>\<open>/(?:Lexer|Parser|Syntax|Parse)\s+error\s+at\s+line\s+(\d+),\s+column\s+(\d+):\s+(.+?)(?:\n|$)/gi\<close>\<close>
  "pattern1 = \<lparr> source = seqs ([alts [Lit ''Lexer'', Lit ''Parser'', Lit ''Syntax'', Lit ''Parse''],
        Plus (Cls Space), Lit ''error'', Plus (Cls Space), Lit ''at'', Plus (Cls Space)]
        @ lineColumnMessageTail @ [Plus (Cls Space)] @ messageToLineEnd),
      ignoreCase = True \<rparr>"

definition pattern2 :: pattern where
  \<comment> \<open>\<^verbatim>\<open>/(?:ParseError|LexError)\s*{\s*line:\s*(\d+),\s*column:\s*(\d+),\s*message:\s*"([^"]+)"/g\<close>\<close>
  "pattern2 = \<lparr> source = seqs [alts [Lit ''ParseError'', Lit ''LexError''],
        Star (Cls Space), Lit ''{'', Star (Cls Space), Lit ''line:'', Star (Cls Space),
        Group 1 (Plus (Cls Digit)), Lit '','', Star (Cls Space), Lit ''column:'',
        Star (Cls Space), Group 2 (Plus (Cls Digit)), Lit '','', Star (Cls Space),
        Lit ''message:'', Star (Cls Space), Lit [CHR 0x22], Group 3 (Plus (Cls NotQuote)),
        Lit [CHR 0x22]],
      ignoreCase = False \<rparr>"

definition pattern3 :: pattern where
  \<comment> \<open>\<^verbatim>\<open>/Error\s+at\s+line\s+(\d+),\s+column\s+(\d+):\s+(.+?)(?:\n|$)/gi\<close>\<close>
  "pattern3 = \<lparr> source = seqs ([Lit ''Error'', Plus (Cls Space), Lit ''at'', Plus (Cls Space)]
        @ lineColumnMessageTail @ [Plus (Cls Space)] @ messageToLineEnd),
      ignoreCase = True \<rparr>"

definition pattern4 :: pattern where
  \<comment> \<open>\<^verbatim>\<open>/error:\s*line\s+(\d+),\s+column\s+(\d+):\s*(.+?)(?:\n|$)/gi\<close>\<close>
  "pattern4 = \<lparr> source = seqs ([Lit ''error:'', Star (Cls Space)]
        @ lineColumnMessageTail @ [Star (Cls Space)] @ messageToLineEnd),
      ignoreCase = True \<rparr>"

definition patterns :: "pattern list" where
  "patterns = [pattern1, pattern2, pattern3, pattern4]"


section \<open>Executing a global regular expression\<close>

record regexMatch =
  index :: nat                        \<comment> \<open>where the match starts\<close>
  endIndex :: nat                     \<comment> \<open>where it ends: the \<^verbatim>\<open>lastIndex\<close> that \<^verbatim>\<open>exec\<close> leaves\<close>
  captures :: "(nat \<times> string) list"   \<comment> \<open>the text of each group\<close>

definition matchGroup :: "regexMatch \<Rightarrow> nat \<Rightarrow> string" where
  \<comment> \<open>\<^verbatim>\<open>match[n]\<close>; every group of the four patterns takes part in every match\<close>
  "matchGroup m n = (case map_of (captures m) n of Some s \<Rightarrow> s | None \<Rightarrow> [])"

fun execFrom :: "pattern \<Rightarrow> string \<Rightarrow> nat \<Rightarrow> regexMatch option" where
  \<comment> \<open>try a match at position i, where \<open>rest\<close> is the input from i on, then at i + 1, ...\<close>
  "execFrom p rest i =
     (case rmatch (ignoreCase p) (source p) (rest, []) of
        st # _ \<Rightarrow> Some \<lparr> index = i, endIndex = i + (length rest - length (fst st)),
                         captures = snd st \<rparr>
      | [] \<Rightarrow> (case rest of [] \<Rightarrow> None | _ # rest' \<Rightarrow> execFrom p rest' (Suc i)))"

definition exec :: "pattern \<Rightarrow> string \<Rightarrow> nat \<Rightarrow> regexMatch option" where
  \<comment> \<open>\<^verbatim>\<open>pattern.exec(input)\<close> with \<^verbatim>\<open>pattern.lastIndex = lastIndex\<close>\<close>
  "exec p input lastIndex =
     (if length input < lastIndex then None else execFrom p (drop lastIndex input) lastIndex)"


section \<open>Documents and diagnostics\<close>

record textDocument =
  uri :: string                \<comment> \<open>\<^verbatim>\<open>document.uri\<close>, written as its \<^verbatim>\<open>fsPath\<close>\<close>
  languageId :: string
  lines :: "string list"       \<comment> \<open>the text of each line; \<^verbatim>\<open>lineCount\<close> is their number\<close>

datatype error =
    IllegalLine         \<comment> \<open>\<^verbatim>\<open>lineAt\<close> outside the document\<close>
  | IllegalPosition     \<comment> \<open>a negative line or character\<close>
  | MessageNotSet       \<comment> \<open>\<^verbatim>\<open>new vscode.Diagnostic\<close> with an empty message\<close>
  | CommandFailed nat   \<comment> \<open>a child process that exits with a status other than 0\<close>
  | SpawnFailed         \<comment> \<open>ENOENT, EACCES: the command cannot be started\<close>
  | ProcessTimedOut     \<comment> \<open>the child process is killed when its timeout expires\<close>
  | StatFailed          \<comment> \<open>\<^verbatim>\<open>fs.statSync\<close> on a path it cannot read\<close>

datatype 'a result = Returns 'a | Throws error | Diverges

definition lineCount :: "textDocument \<Rightarrow> int" where
  "lineCount doc = int (length (lines doc))"

definition lineAt :: "textDocument \<Rightarrow> int \<Rightarrow> error + string" where
  \<comment> \<open>\<^verbatim>\<open>document.lineAt(line).text\<close>; the editor throws on a line that is not in the document\<close>
  "lineAt doc l =
     (if 0 \<le> l \<and> l < lineCount doc then Inr (lines doc ! nat l) else Inl IllegalLine)"

record range =
  startLine :: int
  startCharacter :: int
  endLine :: int
  endCharacter :: int

definition mkRange :: "int \<Rightarrow> int \<Rightarrow> int \<Rightarrow> int \<Rightarrow> error + range" where
  \<comment> \<open>\<^verbatim>\<open>new vscode.Range(startLine, startCharacter, endLine, endCharacter)\<close>: a position has
      no negative component, and the editor swaps the two ends when the first is after
      the second\<close>
  "mkRange sl sc el ec =
     (if sl < 0 \<or> sc < 0 \<or> el < 0 \<or> ec < 0 then Inl IllegalPosition
      else if el < sl \<or> (el = sl \<and> ec < sc)
      then Inr \<lparr> startLine = el, startCharacter = ec, endLine = sl, endCharacter = sc \<rparr>
      else Inr \<lparr> startLine = sl, startCharacter = sc, endLine = el, endCharacter = ec \<rparr>)"

datatype severity = Error | Warning

record diagnostic =
  range :: range
  message :: string
  severity :: severity
  diagSource :: string         \<comment> \<open>\<^verbatim>\<open>diagnostic.source\<close>\<close>

function scanWhile :: "(char \<Rightarrow> bool) \<Rightarrow> string \<Rightarrow> nat \<Rightarrow> nat" where
  \<comment> \<open>\<^verbatim>\<open>while (end < line.length && test(line[end])) end++\<close>\<close>
  "scanWhile test line e =
     (if e < length line \<and> test (line ! e) then scanWhile test line (Suc e) else e)"
  by pat_completeness auto
termination
  by (relation "measure (\<lambda>(test, line, e). length line - e)") auto

declare scanWhile.simps [simp del]

definition findTokenEnd :: "string \<Rightarrow> nat \<Rightarrow> nat" where
  "findTokenEnd line start =
     (let end1 = scanWhile isWhitespace line start in
      if end1 < length line \<and> isDelimiter (line ! end1) then end1 + 1
      else max (scanWhile isWordChar line end1) (start + 1))"

definition diagnosticOfMatch :: "textDocument \<Rightarrow> regexMatch \<Rightarrow> error + diagnostic" where
  \<comment> \<open>the body of the \<^verbatim>\<open>while\<close> loop of \<^verbatim>\<open>parseCompilerErrors\<close>. The constructor
      \<^verbatim>\<open>new vscode.Diagnostic(range, message, severity)\<close> throws a \<^verbatim>\<open>TypeError\<close> when the
      message is the empty string.\<close>
  "diagnosticOfMatch doc m =
     (let line = parseInt (matchGroup m 1) - 1;
          column = parseInt (matchGroup m 2) - 1;
          msg = trim (matchGroup m 3);
          validLine = max 0 (min line (lineCount doc - 1))
      in case lineAt doc validLine of
           Inl e \<Rightarrow> Inl e
         | Inr lineText \<Rightarrow>
            (let validColumn = max 0 (min column (int (length lineText)));
                 r = (if validColumn < int (length lineText)
                      then mkRange validLine validColumn validLine
                             (int (findTokenEnd lineText (nat validColumn)))
                      else mkRange validLine 0 validLine (int (length lineText)));
                 sev = (if includesStr (toLowerCase msg) ''warning'' then Warning else Error)
             in case r of
                  Inl e \<Rightarrow> Inl e
                | Inr rng \<Rightarrow>
                    if msg = [] then Inl MessageNotSet
                    else Inr \<lparr> range = rng, message = msg, severity = sev,
                               diagSource = ''veyra'' \<rparr>))"


section \<open>The error-text parser\<close>

text \<open>
  No matcher returns a state with more input left than it was given, so a match found by
  \<^const>\<open>execFrom\<close> ends inside the input. The \<^verbatim>\<open>while\<close> loop below rests on it.
\<close>

lemma matchLit_length: "matchLit ic ps s = Some rest \<Longrightarrow> length rest + length ps = length s"
  by (induction ic ps s rule: matchLit.induct) (auto split: if_splits)

definition shortening :: "(mstate \<Rightarrow> mstate list) \<Rightarrow> bool" where
  "shortening m \<longleftrightarrow> (\<forall>st st'. st' \<in> set (m st) \<longrightarrow> length (fst st') \<le> length (fst st))"

lemma shorteningD: "shortening m \<Longrightarrow> st' \<in> set (m st) \<Longrightarrow> length (fst st') \<le> length (fst st)"
  unfolding shortening_def by blast

lemma shortening_bind:
  assumes "shortening f" "shortening g"
  shows "shortening (\<lambda>st. concat (map g (f st)))"
  unfolding shortening_def
proof (intro allI impI)
  fix st st' assume "st' \<in> set (concat (map g (f st)))"
  then obtain mid where "mid \<in> set (f st)" "st' \<in> set (g mid)" by auto
  then show "length (fst st') \<le> length (fst st)"
    using shorteningD[OF assms(1)] shorteningD[OF assms(2)] by (meson order_trans)
qed

lemma repeatGreedy_shortening:
  assumes "shortening m" shows "shortening (repeatGreedy m n)"
proof (induction n)
  case 0 then show ?case by (simp add: shortening_def)
next
  case (Suc n)
  show ?case unfolding shortening_def
  proof (intro allI impI)
    fix st st' assume "st' \<in> set (repeatGreedy m (Suc n) st)"
    then consider "st' = st" | mid where "mid \<in> set (m st)" "st' \<in> set (repeatGreedy m n mid)"
      by auto
    then show "length (fst st') \<le> length (fst st)"
    proof cases
      case 1 then show ?thesis by simp
    next
      case 2 then show ?thesis
        using shorteningD[OF assms] shorteningD[OF Suc] by (meson order_trans)
    qed
  qed
qed

lemma repeatLazy_shortening:
  assumes "shortening m" shows "shortening (repeatLazy m n)"
proof (induction n)
  case 0 then show ?case by (simp add: shortening_def)
next
  case (Suc n)
  show ?case unfolding shortening_def
  proof (intro allI impI)
    fix st st' assume "st' \<in> set (repeatLazy m (Suc n) st)"
    then consider "st' = st" | mid where "mid \<in> set (m st)" "st' \<in> set (repeatLazy m n mid)"
      by auto
    then show "length (fst st') \<le> length (fst st)"
    proof cases
      case 1 then show ?thesis by simp
    next
      case 2 then show ?thesis
        using shorteningD[OF assms] shorteningD[OF Suc] by (meson order_trans)
    qed
  qed
qed

lemma rmatch_shortening: "shortening (rmatch ic r)"
proof (induction r)
  case (Lit ps)
  show ?case unfolding shortening_def
    by (auto split: option.splits dest: matchLit_length[OF sym])
next
  case (Cls k)
  show ?case unfolding shortening_def
  proof (intro allI impI)
    fix st st' :: mstate assume "st' \<in> set (rmatch ic (Cls k) st)"
    then show "length (fst st') \<le> length (fst st)"
      by (cases "fst st") (auto split: if_splits)
  qed
next
  case (Seq a b)
  have "rmatch ic (Seq a b) = (\<lambda>st. concat (map (rmatch ic b) (rmatch ic a st)))" by (rule ext) simp
  then show ?case using shortening_bind[OF Seq.IH] by simp
next
  case (Alt a b)
  show ?case unfolding shortening_def
  proof (intro allI impI)
    fix st st' assume "st' \<in> set (rmatch ic (Alt a b) st)"
    then have "st' \<in> set (rmatch ic a st) \<or> st' \<in> set (rmatch ic b st)" by simp
    then show "length (fst st') \<le> length (fst st)"
      using shorteningD[OF Alt.IH(1)] shorteningD[OF Alt.IH(2)] by blast
  qed
next
  case (Star a)
  show ?case unfolding shortening_def
    using shorteningD[OF repeatGreedy_shortening[OF Star.IH]] by simp
next
  case (Plus a)
  show ?case unfolding shortening_def
  proof (intro allI impI)
    fix st st' assume "st' \<in> set (rmatch ic (Plus a) st)"
    then obtain mid where "mid \<in> set (rmatch ic a st)"
      "st' \<in> set (repeatGreedy (rmatch ic a) (length (fst st)) mid)" by auto
    then show "length (fst st') \<le> length (fst st)"
      using shorteningD[OF Plus.IH] shorteningD[OF repeatGreedy_shortening[OF Plus.IH]]
      by (meson order_trans)
  qed
next
  case (PlusLazy a)
  show ?case unfolding shortening_def
  proof (intro allI impI)
    fix st st' assume "st' \<in> set (rmatch ic (PlusLazy a) st)"
    then obtain mid where "mid \<in> set (rmatch ic a st)"
      "st' \<in> set (repeatLazy (rmatch ic a) (length (fst st)) mid)" by auto
    then show "length (fst st') \<le> length (fst st)"
      using shorteningD[OF PlusLazy.IH] shorteningD[OF repeatLazy_shortening[OF PlusLazy.IH]]
      by (meson order_trans)
  qed
next
  case (Group n a)
  show ?case unfolding shortening_def
  proof (intro allI impI)
    fix st st' assume "st' \<in> set (rmatch ic (Group n a) st)"
    then obtain mid where "mid \<in> set (rmatch ic a st)" "fst st' = fst mid" by auto
    then show "length (fst st') \<le> length (fst st)"
      using shorteningD[OF Group.IH] by simp
  qed
next
  case EndOfInput
  show ?case unfolding shortening_def by (auto split: if_splits)
qed

lemma execFrom_bounds:
  "execFrom p rest i = Some m \<Longrightarrow> i \<le> index m \<and> index m \<le> endIndex m \<and> endIndex m \<le> i + length rest"
proof (induction p rest i rule: execFrom.induct)
  case (1 p rest i)
  show ?case
  proof (cases "rmatch (ignoreCase p) (source p) (rest, [])")
    case Nil
    then show ?thesis using 1 by (cases rest) auto
  next
    case (Cons st sts)
    then have "st \<in> set (rmatch (ignoreCase p) (source p) (rest, []))" by simp
    from shorteningD[OF rmatch_shortening this] have "length (fst st) \<le> length rest" by simp
    then show ?thesis using 1(2) Cons by auto
  qed
qed

lemma exec_bounds:
  "exec p input i = Some m \<Longrightarrow>
     i \<le> index m \<and> index m \<le> endIndex m \<and> endIndex m \<le> length input"
  using execFrom_bounds[of p "drop i input" i m] by (auto simp: exec_def split: if_splits)

text \<open>
  \<^verbatim>\<open>while ((match = pattern.exec(errorOutput)) !== null) { ... diagnostics.push(diagnostic) }\<close>
  with the \<^verbatim>\<open>lastIndex\<close> of the pattern and the array \<^verbatim>\<open>diagnostics\<close> as the state of the
  loop. A match that leaves \<^verbatim>\<open>lastIndex\<close> where it was is found again by every later call
  of \<^verbatim>\<open>exec\<close>: the loop never ends.
\<close>

function execLoop ::
  "pattern \<Rightarrow> string \<Rightarrow> textDocument \<Rightarrow> nat \<Rightarrow> diagnostic list \<Rightarrow> diagnostic list result"
where
  "execLoop p errorOutput doc lastIndex diagnostics =
     (case exec p errorOutput lastIndex of
        None \<Rightarrow> Returns diagnostics
      | Some m \<Rightarrow>
         (case diagnosticOfMatch doc m of
            Inl e \<Rightarrow> Throws e
          | Inr d \<Rightarrow>
             if endIndex m \<le> lastIndex then Diverges
             else execLoop p errorOutput doc (endIndex m) (diagnostics @ [d])))"
  by pat_completeness auto
termination
proof (relation "measure (\<lambda>(p, errorOutput, doc, lastIndex, diagnostics).
                             length errorOutput - lastIndex)")
  show "wf (measure (\<lambda>(p, errorOutput, doc, lastIndex, diagnostics).
                       length errorOutput - lastIndex))"
    by simp
next
  fix p :: pattern and errorOutput doc lastIndex and diagnostics :: "diagnostic list" and m d
  assume "exec p errorOutput lastIndex = Some m" and "\<not> endIndex m \<le> lastIndex"
  then show "((p, errorOutput, doc, endIndex m, diagnostics @ [d]),
              (p, errorOutput, doc, lastIndex, diagnostics))
             \<in> measure (\<lambda>(p, errorOutput, doc, lastIndex, diagnostics).
                           length errorOutput - lastIndex)"
    using exec_bounds[of p errorOutput lastIndex m] by (simp, linarith)
qed

declare execLoop.simps [simp del]

fun forPatterns ::
  "pattern list \<Rightarrow> string \<Rightarrow> textDocument \<Rightarrow> diagnostic list \<Rightarrow> diagnostic list result"
where
  \<comment> \<open>\<^verbatim>\<open>for (const pattern of patterns) { pattern.lastIndex = 0; while ... }\<close>\<close>
  "forPatterns [] errorOutput doc diagnostics = Returns diagnostics"
| "forPatterns (p # ps) errorOutput doc diagnostics =
     (case execLoop p errorOutput doc 0 diagnostics of
        Returns diagnostics' \<Rightarrow> forPatterns ps errorOutput doc diagnostics'
      | Throws e \<Rightarrow> Throws e
      | Diverges \<Rightarrow> Diverges)"

definition parseCompilerErrors :: "string \<Rightarrow> textDocument \<Rightarrow> diagnostic list result" where
  "parseCompilerErrors errorOutput doc = forPatterns patterns errorOutput doc []"

definition consuming :: "(mstate \<Rightarrow> mstate list) \<Rightarrow> bool" where
  "consuming m \<longleftrightarrow> (\<forall>st st'. st' \<in> set (m st) \<longrightarrow> length (fst st') < length (fst st))"

lemma consumingD: "consuming m \<Longrightarrow> st' \<in> set (m st) \<Longrightarrow> length (fst st') < length (fst st)"
  unfolding consuming_def by blast

lemma consuming_Lit: "ps \<noteq> [] \<Longrightarrow> consuming (rmatch ic (Lit ps))"
  unfolding consuming_def
proof (intro allI impI)
  fix st st' :: mstate
  assume ps: "ps \<noteq> []" and "st' \<in> set (rmatch ic (Lit ps) st)"
  then obtain rest where "matchLit ic ps (fst st) = Some rest" "fst st' = rest"
    by (cases "matchLit ic ps (fst st)") auto
  then show "length (fst st') < length (fst st)"
    using matchLit_length[of ic ps "fst st" rest] ps by (cases ps) auto
qed

lemma consuming_Alt:
  assumes "consuming (rmatch ic a)" "consuming (rmatch ic b)"
  shows "consuming (rmatch ic (Alt a b))"
  unfolding consuming_def
proof (intro allI impI)
  fix st st' assume "st' \<in> set (rmatch ic (Alt a b) st)"
  then have "st' \<in> set (rmatch ic a st) \<or> st' \<in> set (rmatch ic b st)" by simp
  then show "length (fst st') < length (fst st)"
    using consumingD[OF assms(1)] consumingD[OF assms(2)] by blast
qed

lemma consuming_Seq:
  assumes "consuming (rmatch ic a)"
  shows "consuming (rmatch ic (Seq a b))"
  unfolding consuming_def
proof (intro allI impI)
  fix st st' assume "st' \<in> set (rmatch ic (Seq a b) st)"
  then obtain mid where "mid \<in> set (rmatch ic a st)" "st' \<in> set (rmatch ic b mid)" by auto
  then show "length (fst st') < length (fst st)"
    using consumingD[OF assms] shorteningD[OF rmatch_shortening] by (meson le_less_trans)
qed

lemma patterns_consuming:
  assumes "p \<in> set patterns"
  shows "consuming (rmatch (ignoreCase p) (source p))"
proof -
  have "consuming (rmatch ic (source pattern1))" for ic
    by (simp add: pattern1_def consuming_Seq consuming_Alt consuming_Lit)
  moreover have "consuming (rmatch ic (source pattern2))" for ic
    by (simp add: pattern2_def consuming_Seq consuming_Alt consuming_Lit)
  moreover have "consuming (rmatch ic (source pattern3))" for ic
    by (simp add: pattern3_def consuming_Seq consuming_Alt consuming_Lit)
  moreover have "consuming (rmatch ic (source pattern4))" for ic
    by (simp add: pattern4_def consuming_Seq consuming_Alt consuming_Lit)
  ultimately show ?thesis using assms by (auto simp: patterns_def)
qed

lemma execFrom_consuming:
  assumes "consuming (rmatch (ignoreCase p) (source p))"
  shows "execFrom p rest i = Some m \<Longrightarrow> index m < endIndex m"
proof (induction rest arbitrary: i)
  case Nil
  show ?case
  proof (cases "rmatch (ignoreCase p) (source p) ([], [])")
    case Nil
    then show ?thesis using Nil.prems by simp
  next
    case (Cons st sts)
    then have "st \<in> set (rmatch (ignoreCase p) (source p) ([], []))" by simp
    from consumingD[OF assms this] show ?thesis by simp
  qed
next
  case (Cons c rest)
  show ?case
  proof (cases "rmatch (ignoreCase p) (source p) (c # rest, [])")
    case Nil
    then show ?thesis using Cons.prems Cons.IH[of "Suc i"] by simp
  next
    case (Cons st sts)
    then have "st \<in> set (rmatch (ignoreCase p) (source p) (c # rest, []))" by simp
    from consumingD[OF assms this] have "length (fst st) < length (c # rest)" by simp
    then show ?thesis using Cons.prems Cons by auto
  qed
qed

lemma exec_consuming:
  "p \<in> set patterns \<Longrightarrow> exec p input i = Some m \<Longrightarrow> index m < endIndex m"
  using execFrom_consuming[OF patterns_consuming, of p "drop i input" i m]
  by (auto simp: exec_def split: if_splits)

lemma scanWhile_ge: "e \<le> scanWhile test line e"
proof (induction test line e rule: scanWhile.induct)
  case (1 test line e)
  then show ?case by (subst scanWhile.simps) auto
qed

lemma scanWhile_le: "e \<le> length line \<Longrightarrow> scanWhile test line e \<le> length line"
proof (induction test line e rule: scanWhile.induct)
  case (1 test line e)
  then show ?case by (subst scanWhile.simps) auto
qed

lemma findTokenEnd_bounds:
  assumes "start < length line"
  shows "start + 1 \<le> findTokenEnd line start" and "findTokenEnd line start \<le> length line"
proof -
  let ?e = "scanWhile isWhitespace line start"
  have ge: "start \<le> ?e" by (rule scanWhile_ge)
  have le: "?e \<le> length line" using assms by (intro scanWhile_le) simp
  have le2: "scanWhile isWordChar line ?e \<le> length line" using le by (rule scanWhile_le)
  show "start + 1 \<le> findTokenEnd line start"
    using ge by (simp add: findTokenEnd_def Let_def)
  show "findTokenEnd line start \<le> length line"
    using le le2 assms by (auto simp: findTokenEnd_def Let_def)
qed

definition validLineOf :: "textDocument \<Rightarrow> regexMatch \<Rightarrow> int" where
  "validLineOf doc m = max 0 (min (parseInt (matchGroup m 1) - 1) (lineCount doc - 1))"

definition lineTextOf :: "textDocument \<Rightarrow> regexMatch \<Rightarrow> string" where
  "lineTextOf doc m = lines doc ! nat (validLineOf doc m)"

definition validColumnOf :: "textDocument \<Rightarrow> regexMatch \<Rightarrow> int" where
  "validColumnOf doc m =
     max 0 (min (parseInt (matchGroup m 2) - 1) (int (length (lineTextOf doc m))))"

lemma validLineOf_bounds:
  "lines doc \<noteq> [] \<Longrightarrow> 0 \<le> validLineOf doc m \<and> validLineOf doc m < lineCount doc"
  by (auto simp: validLineOf_def lineCount_def)

definition blankMessage :: "regexMatch \<Rightarrow> bool" where
  \<comment> \<open>the message of the match is empty once it is trimmed\<close>
  "blankMessage m \<longleftrightarrow> trim (matchGroup m 3) = []"

lemma diagnosticOfMatch_cases:
  assumes "lines doc \<noteq> []"
  shows "diagnosticOfMatch doc m =
    (if blankMessage m then Inl MessageNotSet
     else Inr \<lparr>
       range = (if validColumnOf doc m < int (length (lineTextOf doc m))
                then \<lparr> startLine = validLineOf doc m, startCharacter = validColumnOf doc m,
                       endLine = validLineOf doc m,
                       endCharacter = int (findTokenEnd (lineTextOf doc m) (nat (validColumnOf doc m))) \<rparr>
                else \<lparr> startLine = validLineOf doc m, startCharacter = 0,
                       endLine = validLineOf doc m,
                       endCharacter = int (length (lineTextOf doc m)) \<rparr>),
       message = trim (matchGroup m 3),
       severity = (if includesStr (toLowerCase (trim (matchGroup m 3))) ''warning''
                   then Warning else Error),
       diagSource = ''veyra'' \<rparr>)"
proof -
  define vl where "vl = max 0 (min (parseInt (matchGroup m 1) - 1) (lineCount doc - 1))"
  define lt where "lt = lines doc ! nat vl"
  define vc where "vc = max 0 (min (parseInt (matchGroup m 2) - 1) (int (length lt)))"
  have folded: "validLineOf doc m = vl" "lineTextOf doc m = lt" "validColumnOf doc m = vc"
    by (simp_all add: validLineOf_def lineTextOf_def validColumnOf_def vl_def lt_def vc_def)
  have vl: "0 \<le> vl" "vl < lineCount doc"
    using validLineOf_bounds[OF assms, of m] by (simp_all add: folded)
  have la: "lineAt doc vl = Inr lt" using vl by (simp add: lineAt_def lt_def)
  have vc: "0 \<le> vc" "vc \<le> int (length lt)" by (auto simp: vc_def)
  have unfolded: "diagnosticOfMatch doc m =
     (case lineAt doc vl of
           Inl e \<Rightarrow> Inl e
         | Inr lineText \<Rightarrow>
            (let validColumn = max 0 (min (parseInt (matchGroup m 2) - 1) (int (length lineText)));
                 r = (if validColumn < int (length lineText)
                      then mkRange vl validColumn vl
                             (int (findTokenEnd lineText (nat validColumn)))
                      else mkRange vl 0 vl (int (length lineText)));
                 sev = (if includesStr (toLowerCase (trim (matchGroup m 3))) ''warning''
                        then Warning else Error)
             in case r of
                  Inl e \<Rightarrow> Inl e
                | Inr rng \<Rightarrow>
                    if trim (matchGroup m 3) = [] then Inl MessageNotSet
                    else Inr \<lparr> range = rng, message = trim (matchGroup m 3), severity = sev,
                               diagSource = ''veyra'' \<rparr>))"
    unfolding diagnosticOfMatch_def vl_def Let_def by (rule refl)
  have step: "diagnosticOfMatch doc m =
     (case (if vc < int (length lt)
            then mkRange vl vc vl (int (findTokenEnd lt (nat vc)))
            else mkRange vl 0 vl (int (length lt))) of
        Inl e \<Rightarrow> Inl e
      | Inr rng \<Rightarrow>
          if trim (matchGroup m 3) = [] then Inl MessageNotSet
          else Inr \<lparr> range = rng, message = trim (matchGroup m 3),
             severity = (if includesStr (toLowerCase (trim (matchGroup m 3))) ''warning''
                         then Warning else Error),
             diagSource = ''veyra'' \<rparr>)"
    unfolding unfolded la vc_def Let_def by simp
  show ?thesis
  proof (cases "vc < int (length lt)")
    case True
    then have lt: "nat vc < length lt" using vc by linarith
    have "nat vc + 1 \<le> findTokenEnd lt (nat vc)" using findTokenEnd_bounds(1)[OF lt] .
    then have "vc < int (findTokenEnd lt (nat vc))" using vc by linarith
    then have "mkRange vl vc vl (int (findTokenEnd lt (nat vc)))
      = Inr \<lparr> startLine = vl, startCharacter = vc, endLine = vl,
               endCharacter = int (findTokenEnd lt (nat vc)) \<rparr>"
      using vl vc by (simp add: mkRange_def)
    then show ?thesis unfolding folded step blankMessage_def using True by simp
  next
    case False
    have "mkRange vl 0 vl (int (length lt))
      = Inr \<lparr> startLine = vl, startCharacter = 0, endLine = vl,
               endCharacter = int (length lt) \<rparr>"
      using vl by (simp add: mkRange_def)
    then show ?thesis unfolding folded step blankMessage_def using False by simp
  qed
qed

lemma diagnosticOfMatch_Inr:
  assumes "lines doc \<noteq> []" and "\<not> blankMessage m"
  shows "diagnosticOfMatch doc m = Inr \<lparr>
     range = (if validColumnOf doc m < int (length (lineTextOf doc m))
              then \<lparr> startLine = validLineOf doc m, startCharacter = validColumnOf doc m,
                     endLine = validLineOf doc m,
                     endCharacter = int (findTokenEnd (lineTextOf doc m) (nat (validColumnOf doc m))) \<rparr>
              else \<lparr> startLine = validLineOf doc m, startCharacter = 0,
                     endLine = validLineOf doc m,
                     endCharacter = int (length (lineTextOf doc m)) \<rparr>),
     message = trim (matchGroup m 3),
     severity = (if includesStr (toLowerCase (trim (matchGroup m 3))) ''warning''
                 then Warning else Error),
     diagSource = ''veyra'' \<rparr>"
  using diagnosticOfMatch_cases[OF assms(1), of m] assms(2) by simp

lemma diagnosticOfMatch_blank:
  assumes "lines doc \<noteq> []" and "blankMessage m"
  shows "diagnosticOfMatch doc m = Inl MessageNotSet"
  using diagnosticOfMatch_cases[OF assms(1), of m] assms(2) by simp

text \<open>
  The successive matches of a global pattern in a text, from position i on: each search
  starts where the match before it ended. (For a pattern that matched the empty string the
  list would stop at that match; no pattern of \<^const>\<open>patterns\<close> does.)
\<close>

function matchList :: "pattern \<Rightarrow> string \<Rightarrow> nat \<Rightarrow> regexMatch list" where
  "matchList p input i =
     (case exec p input i of
        None \<Rightarrow> []
      | Some m \<Rightarrow> if endIndex m \<le> i then [m] else m # matchList p input (endIndex m))"
  by pat_completeness auto
termination
proof (relation "measure (\<lambda>(p, input, i). length input - i)")
  show "wf (measure (\<lambda>(p, input, i). length input - i))" by simp
next
  fix p :: pattern and input i m
  assume "exec p input i = Some m" and "\<not> endIndex m \<le> i"
  then show "((p, input, endIndex m), (p, input, i)) \<in> measure (\<lambda>(p, input, i). length input - i)"
    using exec_bounds[of p input i m] by (simp, linarith)
qed

declare matchList.simps [simp del]

definition allMatches :: "string \<Rightarrow> regexMatch list" where
  \<comment> \<open>every match of every pattern: by pattern first, by position in the text second\<close>
  "allMatches input = concat (map (\<lambda>p. matchList p input 0) patterns)"

definition yields :: "textDocument \<Rightarrow> diagnostic \<Rightarrow> regexMatch \<Rightarrow> bool" where
  \<comment> \<open>d is the diagnostic that the loop body builds from the match m\<close>
  "yields doc d m \<longleftrightarrow> diagnosticOfMatch doc m = Inr d"

text \<open>
  The loop builds the diagnostics of the matches in their order, and stops with the
  \<^verbatim>\<open>TypeError\<close> of the constructor at the first match whose message is blank.
\<close>

lemma execLoop_outcome:
  assumes "lines doc \<noteq> []" and "p \<in> set patterns"
  shows "if (\<exists>m \<in> set (matchList p input i). blankMessage m)
         then execLoop p input doc i acc = Throws MessageNotSet
         else (\<exists>ds. execLoop p input doc i acc = Returns (acc @ ds)
                 \<and> list_all2 (yields doc) ds (matchList p input i))"
  using assms
proof (induction p input doc i acc rule: execLoop.induct)
  case (1 p input doc i acc)
  show ?case
  proof (cases "exec p input i")
    case None
    then have "execLoop p input doc i acc = Returns (acc @ [])" "matchList p input i = []"
      by (simp_all add: execLoop.simps[of p input doc i acc] matchList.simps[of p input i])
    then show ?thesis by simp
  next
    case (Some m)
    have prog: "\<not> endIndex m \<le> i"
      using exec_consuming[OF "1.prems"(2) Some] exec_bounds[OF Some] by linarith
    have ml: "matchList p input i = m # matchList p input (endIndex m)"
      using Some prog by (simp add: matchList.simps[of p input i])
    show ?thesis
    proof (cases "blankMessage m")
      case True
      then have "execLoop p input doc i acc = Throws MessageNotSet"
        using Some diagnosticOfMatch_blank[OF "1.prems"(1) True]
        by (simp add: execLoop.simps[of p input doc i acc])
      then show ?thesis using True ml by simp
    next
      case False
      obtain d where d: "diagnosticOfMatch doc m = Inr d"
        using diagnosticOfMatch_Inr[OF "1.prems"(1) False] by blast
      have unroll: "execLoop p input doc i acc = execLoop p input doc (endIndex m) (acc @ [d])"
        using Some d prog by (simp add: execLoop.simps[of p input doc i acc])
      note IH = "1.IH"[OF Some d prog "1.prems"]
      show ?thesis
      proof (cases "\<exists>m' \<in> set (matchList p input (endIndex m)). blankMessage m'")
        case True
        then have "execLoop p input doc (endIndex m) (acc @ [d]) = Throws MessageNotSet"
          using IH by simp
        then show ?thesis using True ml unroll by simp
      next
        case rest: False
        then obtain ds where
          ds: "execLoop p input doc (endIndex m) (acc @ [d]) = Returns ((acc @ [d]) @ ds)"
              "list_all2 (yields doc) ds (matchList p input (endIndex m))"
          using IH by auto
        have "execLoop p input doc i acc = Returns (acc @ (d # ds))"
          using unroll ds(1) by simp
        moreover have "list_all2 (yields doc) (d # ds) (matchList p input i)"
          using ds(2) d ml by (simp add: yields_def)
        moreover have "\<not> (\<exists>m' \<in> set (matchList p input i). blankMessage m')"
          using rest False ml by simp
        ultimately show ?thesis by auto
      qed
    qed
  qed
qed

lemma forPatterns_outcome:
  assumes "lines doc \<noteq> []" and "set ps \<subseteq> set patterns"
  shows "if (\<exists>m \<in> set (concat (map (\<lambda>p. matchList p input 0) ps)). blankMessage m)
         then forPatterns ps input doc acc = Throws MessageNotSet
         else (\<exists>ds. forPatterns ps input doc acc = Returns (acc @ ds)
                 \<and> list_all2 (yields doc) ds (concat (map (\<lambda>p. matchList p input 0) ps)))"
  using assms(2)
proof (induction ps arbitrary: acc)
  case Nil
  then show ?case by simp
next
  case (Cons p ps)
  from Cons.prems have p: "p \<in> set patterns" and ps: "set ps \<subseteq> set patterns" by auto
  note first = execLoop_outcome[OF assms(1) p, of input 0 acc]
  show ?case
  proof (cases "\<exists>m \<in> set (matchList p input 0). blankMessage m")
    case True
    then have "execLoop p input doc 0 acc = Throws MessageNotSet" using first by simp
    then show ?thesis using True by auto
  next
    case False
    then obtain ds1 where ds1: "execLoop p input doc 0 acc = Returns (acc @ ds1)"
        "list_all2 (yields doc) ds1 (matchList p input 0)"
      using first by auto
    have unroll: "forPatterns (p # ps) input doc acc = forPatterns ps input doc (acc @ ds1)"
      using ds1(1) by simp
    note IH = Cons.IH[OF ps, of "acc @ ds1"]
    show ?thesis
    proof (cases "\<exists>m \<in> set (concat (map (\<lambda>p. matchList p input 0) ps)). blankMessage m")
      case True
      then have "forPatterns ps input doc (acc @ ds1) = Throws MessageNotSet" using IH by simp
      then show ?thesis using True unroll by auto
    next
      case rest: False
      then obtain ds2 where
        ds2: "forPatterns ps input doc (acc @ ds1) = Returns ((acc @ ds1) @ ds2)"
             "list_all2 (yields doc) ds2 (concat (map (\<lambda>p. matchList p input 0) ps))"
        using IH by auto
      have "forPatterns (p # ps) input doc acc = Returns (acc @ (ds1 @ ds2))"
        using unroll ds2(1) by simp
      moreover have "list_all2 (yields doc) (ds1 @ ds2)
                       (concat (map (\<lambda>p. matchList p input 0) (p # ps)))"
        using ds1(2) ds2(2) by (simp add: list_all2_appendI)
      moreover have "\<not> (\<exists>m \<in> set (concat (map (\<lambda>p. matchList p input 0) (p # ps))).
                          blankMessage m)"
        using False rest by auto
      ultimately show ?thesis by auto
    qed
  qed
qed

lemma parseCompilerErrors_outcome:
  assumes "lines doc \<noteq> []"
  shows "if (\<exists>m \<in> set (allMatches input). blankMessage m)
         then parseCompilerErrors input doc = Throws MessageNotSet
         else (\<exists>ds. parseCompilerErrors input doc = Returns ds
                 \<and> list_all2 (yields doc) ds (allMatches input))"
  using forPatterns_outcome[OF assms, of patterns input "[]"]
  by (auto simp: parseCompilerErrors_def allMatches_def)

lemma parseCompilerErrors_allMatches:
  assumes "lines doc \<noteq> []" and "\<forall>m \<in> set (allMatches input). \<not> blankMessage m"
  shows "\<exists>ds. parseCompilerErrors input doc = Returns ds
              \<and> list_all2 (yields doc) ds (allMatches input)"
  using parseCompilerErrors_outcome[OF assms(1), of input] assms(2) by auto

lemma parseCompilerErrors_blank:
  assumes "lines doc \<noteq> []" and "\<exists>m \<in> set (allMatches input). blankMessage m"
  shows "parseCompilerErrors input doc = Throws MessageNotSet"
  using parseCompilerErrors_outcome[OF assms(1), of input] assms(2) by simp

lemma matchList_increasing:
  assumes "p \<in> set patterns"
  shows "sorted_wrt (<) (map index (matchList p input i))
         \<and> (\<forall>m \<in> set (matchList p input i). i \<le> index m)"
  using assms
proof (induction p input i rule: matchList.induct)
  case (1 p input i)
  show ?case
  proof (cases "exec p input i")
    case None
    then show ?thesis by (simp add: matchList.simps[of p input i])
  next
    case (Some m)
    have prog: "index m < endIndex m" using exec_consuming[OF "1.prems" Some] .
    have b: "i \<le> index m" using exec_bounds[OF Some] by simp
    then have ne: "\<not> endIndex m \<le> i" using prog by linarith
    have eq: "matchList p input i = m # matchList p input (endIndex m)"
      using Some ne by (simp add: matchList.simps[of p input i])
    from "1.IH"[OF Some ne "1.prems"] have
      IH: "sorted_wrt (<) (map index (matchList p input (endIndex m)))"
          "\<forall>m' \<in> set (matchList p input (endIndex m)). endIndex m \<le> index m'"
      by auto
    show ?thesis unfolding eq using IH prog b by fastforce
  qed
qed

definition tenLines :: textDocument where
  "tenLines = \<lparr> uri = ''/ws/main.vey'', languageId = ''veyra'',
                 lines = replicate 10 ''let x = 1;'' \<rparr>"

lemma list_all2_mono_yields:
  assumes "list_all2 (yields doc) ds ms" and "\<And>d m. yields doc d m \<Longrightarrow> Q d m"
  shows "list_all2 Q ds ms"
  using assms by (metis list_all2_mono)

lemma yields_range:
  assumes "lines doc \<noteq> []" and "yields doc d m"
  shows "range d =
          (if validColumnOf doc m < int (length (lineTextOf doc m))
           then \<lparr> startLine = validLineOf doc m, startCharacter = validColumnOf doc m,
                  endLine = validLineOf doc m,
                  endCharacter = int (findTokenEnd (lineTextOf doc m) (nat (validColumnOf doc m))) \<rparr>
           else \<lparr> startLine = validLineOf doc m, startCharacter = 0,
                  endLine = validLineOf doc m,
                  endCharacter = int (length (lineTextOf doc m)) \<rparr>)"
    and "message d = trim (matchGroup m 3)"
    and "severity d = (if includesStr (toLowerCase (trim (matchGroup m 3))) ''warning''
                       then Warning else Error)"
    and "message d \<noteq> []"
  using assms(2) diagnosticOfMatch_cases[OF assms(1), of m]
  by (auto simp: yields_def blankMessage_def split: if_splits)

subsection \<open>The groups that are parsed as numbers\<close>

text \<open>
  \<^const>\<open>parseInt\<close> is only applied to groups 1 and 2 of a match. In each of the four
  patterns both groups are \<^verbatim>\<open>(\d+)\<close> and lie on every path through the pattern, so the
  text of either group is a non-empty string of digits.
\<close>

fun digitGroups :: "regex \<Rightarrow> bool" where
  "digitGroups (Group n a) = (if n = 1 \<or> n = 2 then a = Plus (Cls Digit) else digitGroups a)"
| "digitGroups (Seq a b) = (digitGroups a \<and> digitGroups b)"
| "digitGroups (Alt a b) = (digitGroups a \<and> digitGroups b)"
| "digitGroups (Star a) = digitGroups a"
| "digitGroups (Plus a) = digitGroups a"
| "digitGroups (PlusLazy a) = digitGroups a"
| "digitGroups _ = True"

fun surely :: "regex \<Rightarrow> nat set" where
  "surely (Group n a) = insert n (surely a)"
| "surely (Seq a b) = surely a \<union> surely b"
| "surely (Alt a b) = surely a \<inter> surely b"
| "surely (Plus a) = surely a"
| "surely (PlusLazy a) = surely a"
| "surely _ = {}"

definition digitString :: "string \<Rightarrow> bool" where
  "digitString s \<longleftrightarrow> s \<noteq> [] \<and> (\<forall>c \<in> set s. isDigit c)"

definition goodCaps :: "(nat \<times> string) list \<Rightarrow> bool" where
  "goodCaps caps \<longleftrightarrow> (\<forall>(n, s) \<in> set caps. n = 1 \<or> n = 2 \<longrightarrow> digitString s)"

definition keepsGood :: "(mstate \<Rightarrow> mstate list) \<Rightarrow> bool" where
  "keepsGood m \<longleftrightarrow> (\<forall>st st'. st' \<in> set (m st) \<longrightarrow> goodCaps (snd st) \<longrightarrow> goodCaps (snd st'))"

lemma keepsGoodD: "keepsGood m \<Longrightarrow> st' \<in> set (m st) \<Longrightarrow> goodCaps (snd st) \<Longrightarrow> goodCaps (snd st')"
  unfolding keepsGood_def by blast

lemma keepsGood_bind:
  assumes "keepsGood f" "keepsGood g"
  shows "keepsGood (\<lambda>st. concat (map g (f st)))"
  unfolding keepsGood_def
proof (intro allI impI)
  fix st st' assume "st' \<in> set (concat (map g (f st)))" and g: "goodCaps (snd st)"
  then obtain mid where "mid \<in> set (f st)" "st' \<in> set (g mid)" by auto
  then show "goodCaps (snd st')"
    using keepsGoodD[OF assms(1) _ g] keepsGoodD[OF assms(2)] by blast
qed

lemma repeatGreedy_keepsGood:
  assumes "keepsGood m" shows "keepsGood (repeatGreedy m n)"
proof (induction n)
  case 0 then show ?case by (simp add: keepsGood_def)
next
  case (Suc n)
  show ?case unfolding keepsGood_def
  proof (intro allI impI)
    fix st st' assume "st' \<in> set (repeatGreedy m (Suc n) st)" and g: "goodCaps (snd st)"
    then consider "st' = st" | mid where "mid \<in> set (m st)" "st' \<in> set (repeatGreedy m n mid)"
      by auto
    then show "goodCaps (snd st')"
    proof cases
      case 1 then show ?thesis using g by simp
    next
      case 2 then show ?thesis
        using keepsGoodD[OF assms _ g] keepsGoodD[OF Suc] by blast
    qed
  qed
qed

lemma repeatLazy_keepsGood:
  assumes "keepsGood m" shows "keepsGood (repeatLazy m n)"
proof (induction n)
  case 0 then show ?case by (simp add: keepsGood_def)
next
  case (Suc n)
  show ?case unfolding keepsGood_def
  proof (intro allI impI)
    fix st st' assume "st' \<in> set (repeatLazy m (Suc n) st)" and g: "goodCaps (snd st)"
    then consider "st' = st" | mid where "mid \<in> set (m st)" "st' \<in> set (repeatLazy m n mid)"
      by auto
    then show "goodCaps (snd st')"
    proof cases
      case 1 then show ?thesis using g by simp
    next
      case 2 then show ?thesis
        using keepsGoodD[OF assms _ g] keepsGoodD[OF Suc] by blast
    qed
  qed
qed

text \<open>What \<^verbatim>\<open>\d+\<close> consumes.\<close>

lemma repeatGreedy_digits:
  "st' \<in> set (repeatGreedy (rmatch ic (Cls Digit)) n st) \<Longrightarrow>
     \<exists>ds. fst st = ds @ fst st' \<and> (\<forall>c \<in> set ds. isDigit c) \<and> snd st' = snd st"
proof (induction n arbitrary: st)
  case 0
  then show ?case by simp
next
  case (Suc n)
  from Suc.prems consider "st' = st"
    | mid where "mid \<in> set (rmatch ic (Cls Digit) st)"
        "st' \<in> set (repeatGreedy (rmatch ic (Cls Digit)) n mid)"
    by (auto simp del: rmatch.simps)
  then show ?case
  proof cases
    case 1 then show ?thesis by simp
  next
    case 2
    from 2(1) obtain c where c: "fst st = c # fst mid" "isDigit c" "snd mid = snd st"
      by (cases "fst st") (auto split: if_splits)
    from Suc.IH[OF 2(2)] obtain ds where
      "fst mid = ds @ fst st'" "\<forall>c \<in> set ds. isDigit c" "snd st' = snd mid" by blast
    then show ?thesis using c by (intro exI[of _ "c # ds"]) simp
  qed
qed

lemma plus_digits:
  assumes "st' \<in> set (rmatch ic (Plus (Cls Digit)) st)"
  shows "\<exists>ds. fst st = ds @ fst st' \<and> digitString ds \<and> snd st' = snd st"
proof -
  from assms obtain mid where mid: "mid \<in> set (rmatch ic (Cls Digit) st)"
      "st' \<in> set (repeatGreedy (rmatch ic (Cls Digit)) (length (fst st)) mid)"
    by (auto simp del: rmatch.simps(2))
  from mid(1) obtain c where c: "fst st = c # fst mid" "isDigit c" "snd mid = snd st"
    by (cases "fst st") (auto split: if_splits)
  from repeatGreedy_digits[OF mid(2)] obtain ds where
    "fst mid = ds @ fst st'" "\<forall>c \<in> set ds. isDigit c" "snd st' = snd mid" by blast
  then show ?thesis using c by (intro exI[of _ "c # ds"]) (simp add: digitString_def)
qed

lemma rmatch_keepsGood: "digitGroups r \<Longrightarrow> keepsGood (rmatch ic r)"
proof (induction r)
  case (Lit ps)
  show ?case unfolding keepsGood_def by (auto split: option.splits)
next
  case (Cls k)
  show ?case unfolding keepsGood_def
  proof (intro allI impI)
    fix st st' :: mstate assume "st' \<in> set (rmatch ic (Cls k) st)" "goodCaps (snd st)"
    then show "goodCaps (snd st')" by (cases "fst st") (auto split: if_splits)
  qed
next
  case (Seq a b)
  have "rmatch ic (Seq a b) = (\<lambda>st. concat (map (rmatch ic b) (rmatch ic a st)))"
    by (rule ext) simp
  then show ?case using keepsGood_bind[of "rmatch ic a" "rmatch ic b"] Seq by simp
next
  case (Alt a b)
  then have a: "keepsGood (rmatch ic a)" and b: "keepsGood (rmatch ic b)" by simp_all
  show ?case unfolding keepsGood_def
  proof (intro allI impI)
    fix st st' assume "st' \<in> set (rmatch ic (Alt a b) st)" and g: "goodCaps (snd st)"
    then have "st' \<in> set (rmatch ic a st) \<or> st' \<in> set (rmatch ic b st)" by simp
    then show "goodCaps (snd st')" using keepsGoodD[OF a _ g] keepsGoodD[OF b _ g] by blast
  qed
next
  case (Star a)
  then have a: "keepsGood (rmatch ic a)" by simp
  show ?case unfolding keepsGood_def
    using keepsGoodD[OF repeatGreedy_keepsGood[OF a]] by simp
next
  case (Plus a)
  then have a: "keepsGood (rmatch ic a)" by simp
  have "rmatch ic (Plus a) =
     (\<lambda>st. concat (map (\<lambda>mid. repeatGreedy (rmatch ic a) (length (fst st)) mid) (rmatch ic a st)))"
    by (rule ext) simp
  show ?case unfolding keepsGood_def
  proof (intro allI impI)
    fix st st' assume "st' \<in> set (rmatch ic (Plus a) st)" and g: "goodCaps (snd st)"
    then obtain mid where "mid \<in> set (rmatch ic a st)"
      "st' \<in> set (repeatGreedy (rmatch ic a) (length (fst st)) mid)" by auto
    then show "goodCaps (snd st')"
      using keepsGoodD[OF a _ g] keepsGoodD[OF repeatGreedy_keepsGood[OF a]] by blast
  qed
next
  case (PlusLazy a)
  then have a: "keepsGood (rmatch ic a)" by simp
  show ?case unfolding keepsGood_def
  proof (intro allI impI)
    fix st st' assume "st' \<in> set (rmatch ic (PlusLazy a) st)" and g: "goodCaps (snd st)"
    then obtain mid where "mid \<in> set (rmatch ic a st)"
      "st' \<in> set (repeatLazy (rmatch ic a) (length (fst st)) mid)" by auto
    then show "goodCaps (snd st')"
      using keepsGoodD[OF a _ g] keepsGoodD[OF repeatLazy_keepsGood[OF a]] by blast
  qed
next
  case (Group n a)
  show ?case unfolding keepsGood_def
  proof (intro allI impI)
    fix st st' assume in': "st' \<in> set (rmatch ic (Group n a) st)" and g: "goodCaps (snd st)"
    then obtain mid where mid: "mid \<in> set (rmatch ic a st)"
      "snd st' = (n, take (length (fst st) - length (fst mid)) (fst st)) # snd mid"
      by auto
    show "goodCaps (snd st')"
    proof (cases "n = 1 \<or> n = 2")
      case True
      then have a: "a = Plus (Cls Digit)" using Group.prems by simp
      from plus_digits[OF mid(1)[unfolded a]] obtain ds where
        ds: "fst st = ds @ fst mid" "digitString ds" "snd mid = snd st" by blast
      have "take (length (fst st) - length (fst mid)) (fst st) = ds" using ds(1) by simp
      then show ?thesis using mid(2) ds(2,3) g by (simp add: goodCaps_def)
    next
      case False
      then have "keepsGood (rmatch ic a)" using Group by simp
      from keepsGoodD[OF this mid(1) g] show ?thesis using mid(2) False
        by (simp add: goodCaps_def)
    qed
  qed
next
  case EndOfInput
  show ?case unfolding keepsGood_def by (auto split: if_splits)
qed


definition grows :: "nat set \<Rightarrow> (mstate \<Rightarrow> mstate list) \<Rightarrow> bool" where
  "grows K m \<longleftrightarrow>
     (\<forall>st st'. st' \<in> set (m st) \<longrightarrow> fst ` set (snd st) \<union> K \<subseteq> fst ` set (snd st'))"

lemma growsD:
  "grows K m \<Longrightarrow> st' \<in> set (m st) \<Longrightarrow> fst ` set (snd st) \<union> K \<subseteq> fst ` set (snd st')"
  unfolding grows_def by blast

lemma grows_weaken: "grows K m \<Longrightarrow> grows {} m"
  unfolding grows_def by blast

lemma repeatGreedy_grows:
  assumes "grows {} m" shows "grows {} (repeatGreedy m n)"
proof (induction n)
  case 0 then show ?case by (simp add: grows_def)
next
  case (Suc n)
  show ?case unfolding grows_def
  proof (intro allI impI)
    fix st st' assume "st' \<in> set (repeatGreedy m (Suc n) st)"
    then consider "st' = st" | mid where "mid \<in> set (m st)" "st' \<in> set (repeatGreedy m n mid)"
      by auto
    then show "fst ` set (snd st) \<union> {} \<subseteq> fst ` set (snd st')"
    proof cases
      case 1 then show ?thesis by simp
    next
      case 2
      from growsD[OF assms 2(1)] growsD[OF Suc 2(2)] show ?thesis by blast
    qed
  qed
qed

lemma repeatLazy_grows:
  assumes "grows {} m" shows "grows {} (repeatLazy m n)"
proof (induction n)
  case 0 then show ?case by (simp add: grows_def)
next
  case (Suc n)
  show ?case unfolding grows_def
  proof (intro allI impI)
    fix st st' assume "st' \<in> set (repeatLazy m (Suc n) st)"
    then consider "st' = st" | mid where "mid \<in> set (m st)" "st' \<in> set (repeatLazy m n mid)"
      by auto
    then show "fst ` set (snd st) \<union> {} \<subseteq> fst ` set (snd st')"
    proof cases
      case 1 then show ?thesis by simp
    next
      case 2
      from growsD[OF assms 2(1)] growsD[OF Suc 2(2)] show ?thesis by blast
    qed
  qed
qed

lemma rmatch_grows: "grows (surely r) (rmatch ic r)"
proof (induction r)
  case (Lit ps)
  show ?case unfolding grows_def by (auto split: option.splits)
next
  case (Cls k)
  show ?case unfolding grows_def
  proof (intro allI impI)
    fix st st' :: mstate assume "st' \<in> set (rmatch ic (Cls k) st)"
    then show "fst ` set (snd st) \<union> surely (Cls k) \<subseteq> fst ` set (snd st')"
      by (cases "fst st") (auto split: if_splits)
  qed
next
  case (Seq a b)
  show ?case unfolding grows_def
  proof (intro allI impI)
    fix st st' assume "st' \<in> set (rmatch ic (Seq a b) st)"
    then obtain mid where mid: "mid \<in> set (rmatch ic a st)" "st' \<in> set (rmatch ic b mid)"
      by auto
    from growsD[OF Seq.IH(1) mid(1)] growsD[OF Seq.IH(2) mid(2)]
    show "fst ` set (snd st) \<union> surely (Seq a b) \<subseteq> fst ` set (snd st')"
      unfolding surely.simps by blast
  qed
next
  case (Alt a b)
  show ?case unfolding grows_def
  proof (intro allI impI)
    fix st st' assume "st' \<in> set (rmatch ic (Alt a b) st)"
    then have "st' \<in> set (rmatch ic a st) \<or> st' \<in> set (rmatch ic b st)" by simp
    then show "fst ` set (snd st) \<union> surely (Alt a b) \<subseteq> fst ` set (snd st')"
      using growsD[OF Alt.IH(1), of st' st] growsD[OF Alt.IH(2), of st' st] by auto
  qed
next
  case (Star a)
  show ?case
    using repeatGreedy_grows[OF grows_weaken[OF Star.IH]] by (simp add: grows_def)
next
  case (Plus a)
  show ?case unfolding grows_def
  proof (intro allI impI)
    fix st st' assume "st' \<in> set (rmatch ic (Plus a) st)"
    then obtain mid where mid: "mid \<in> set (rmatch ic a st)"
      "st' \<in> set (repeatGreedy (rmatch ic a) (length (fst st)) mid)" by auto
    from growsD[OF Plus.IH mid(1)]
      growsD[OF repeatGreedy_grows[OF grows_weaken[OF Plus.IH]] mid(2)]
    show "fst ` set (snd st) \<union> surely (Plus a) \<subseteq> fst ` set (snd st')"
      unfolding surely.simps by blast
  qed
next
  case (PlusLazy a)
  show ?case unfolding grows_def
  proof (intro allI impI)
    fix st st' assume "st' \<in> set (rmatch ic (PlusLazy a) st)"
    then obtain mid where mid: "mid \<in> set (rmatch ic a st)"
      "st' \<in> set (repeatLazy (rmatch ic a) (length (fst st)) mid)" by auto
    from growsD[OF PlusLazy.IH mid(1)]
      growsD[OF repeatLazy_grows[OF grows_weaken[OF PlusLazy.IH]] mid(2)]
    show "fst ` set (snd st) \<union> surely (PlusLazy a) \<subseteq> fst ` set (snd st')"
      unfolding surely.simps by blast
  qed
next
  case (Group n a)
  show ?case unfolding grows_def
  proof (intro allI impI)
    fix st st' assume "st' \<in> set (rmatch ic (Group n a) st)"
    then obtain mid where mid: "mid \<in> set (rmatch ic a st)"
      "snd st' = (n, take (length (fst st) - length (fst mid)) (fst st)) # snd mid"
      by auto
    from growsD[OF Group.IH mid(1)] mid(2)
    show "fst ` set (snd st) \<union> surely (Group n a) \<subseteq> fst ` set (snd st')" by auto
  qed
next
  case EndOfInput
  show ?case unfolding grows_def by (auto split: if_splits)
qed

lemma execFrom_captures:
  "execFrom p rest i = Some m \<Longrightarrow>
     \<exists>rest' st. st \<in> set (rmatch (ignoreCase p) (source p) (rest', [])) \<and> captures m = snd st"
proof (induction rest arbitrary: i)
  case Nil
  show ?case
  proof (cases "rmatch (ignoreCase p) (source p) ([], [])")
    case Nil
    then show ?thesis using Nil.prems by simp
  next
    case (Cons st sts)
    then have "st \<in> set (rmatch (ignoreCase p) (source p) ([], []))" by simp
    moreover have "captures m = snd st" using Nil.prems Cons by auto
    ultimately show ?thesis by blast
  qed
next
  case (Cons c rest)
  show ?case
  proof (cases "rmatch (ignoreCase p) (source p) (c # rest, [])")
    case Nil
    then show ?thesis using Cons.prems Cons.IH[of "Suc i"] by simp
  next
    case (Cons st sts)
    then have "st \<in> set (rmatch (ignoreCase p) (source p) (c # rest, []))" by simp
    moreover have "captures m = snd st" using Cons.prems Cons by auto
    ultimately show ?thesis by blast
  qed
qed

lemma patterns_groups:
  assumes "p \<in> set patterns"
  shows "digitGroups (source p)" and "{1, 2, 3} \<subseteq> surely (source p)"
  using assms
  by (auto simp: patterns_def pattern1_def pattern2_def pattern3_def pattern4_def
        lineColumnMessageTail_def messageToLineEnd_def)

lemma exec_digit_groups:
  assumes "p \<in> set patterns" and "exec p input i = Some m" and "n = 1 \<or> n = 2"
  shows "digitString (matchGroup m n)"
proof -
  from assms(2) have "execFrom p (drop i input) i = Some m"
    by (simp add: exec_def split: if_splits)
  from execFrom_captures[OF this] obtain rest' st where
    st: "st \<in> set (rmatch (ignoreCase p) (source p) (rest', []))" "captures m = snd st"
    by blast
  have good: "goodCaps (captures m)"
    using keepsGoodD[OF rmatch_keepsGood[OF patterns_groups(1)[OF assms(1)]] st(1)] st(2)
    by (simp add: goodCaps_def)
  have "n \<in> fst ` set (captures m)"
    using growsD[OF rmatch_grows st(1)] patterns_groups(2)[OF assms(1)] assms(3) st(2) by auto
  then obtain s where s: "map_of (captures m) n = Some s"
    by (metis map_of_eq_None_iff not_Some_eq)
  then have "(n, s) \<in> set (captures m)" by (rule map_of_SomeD)
  then have "digitString s" using good assms(3) by (auto simp: goodCaps_def)
  then show ?thesis using s by (simp add: matchGroup_def)
qed

section \<open>Claims about the parser\<close>

lemma returned_is_yielded:
  assumes "lines doc \<noteq> []" and "parseCompilerErrors errorOutput doc = Returns ds"
  shows "list_all2 (yields doc) ds (allMatches errorOutput)"
    and "\<forall>m \<in> set (allMatches errorOutput). \<not> blankMessage m"
  using parseCompilerErrors_outcome[OF assms(1), of errorOutput] assms(2)
  by (auto split: if_splits)

lemma yields_clamped:
  assumes "lines doc \<noteq> []" and y: "yields doc d m"
  shows "let line = parseInt (matchGroup m 1) - 1;
             column = parseInt (matchGroup m 2) - 1;
             validLine = max 0 (min line (lineCount doc - 1));
             lineText = lines doc ! nat validLine;
             validColumn = max 0 (min column (int (length lineText)))
         in startLine (range d) = validLine \<and> endLine (range d) = validLine
          \<and> 0 \<le> validLine \<and> validLine \<le> lineCount doc - 1
          \<and> 0 \<le> validColumn \<and> validColumn \<le> int (length lineText)
          \<and> startCharacter (range d) =
              (if validColumn < int (length lineText) then validColumn else 0)
          \<and> (lineCount doc \<le> parseInt (matchGroup m 1)
               \<longrightarrow> startLine (range d) = lineCount doc - 1)"
proof -
  have n: "0 < lineCount doc" using assms(1) by (simp add: lineCount_def)
  have r: "startLine (range d) = validLineOf doc m" "endLine (range d) = validLineOf doc m"
    "startCharacter (range d) =
       (if validColumnOf doc m < int (length (lineTextOf doc m)) then validColumnOf doc m else 0)"
    using yields_range(1)[OF assms(1) y] by (simp_all split: if_splits)
  have c: "0 \<le> validColumnOf doc m" "validColumnOf doc m \<le> int (length (lineTextOf doc m))"
    by (simp_all add: validColumnOf_def)
  have l: "0 \<le> validLineOf doc m" "validLineOf doc m \<le> lineCount doc - 1"
    using validLineOf_bounds[OF assms(1), of m] by simp_all
  have top: "lineCount doc \<le> parseInt (matchGroup m 1) \<Longrightarrow> validLineOf doc m = lineCount doc - 1"
    using n by (simp add: validLineOf_def)
  show ?thesis
    unfolding Let_def validLineOf_def[symmetric]
      lineTextOf_def[symmetric] validColumnOf_def[symmetric]
    using r c l top by simp
qed

text \<open>
  Every diagnostic that the parser returns is built as claim C8 says: 1 is subtracted
  from the reported line and column, the line is clamped to \<open>[0, lineCount - 1]\<close>, the
  column to \<open>[0, length of that line]\<close>, and a reported line of \<open>lineCount\<close> or more gives
  line \<open>lineCount - 1\<close>.
\<close>

lemma returned_positions_clamped:
  assumes "lines doc \<noteq> []" and "parseCompilerErrors errorOutput doc = Returns ds"
  shows "list_all2 (\<lambda>d m.
              let line = parseInt (matchGroup m 1) - 1;
                  column = parseInt (matchGroup m 2) - 1;
                  validLine = max 0 (min line (lineCount doc - 1));
                  lineText = lines doc ! nat validLine;
                  validColumn = max 0 (min column (int (length lineText)))
              in startLine (range d) = validLine \<and> endLine (range d) = validLine
               \<and> 0 \<le> validLine \<and> validLine \<le> lineCount doc - 1
               \<and> 0 \<le> validColumn \<and> validColumn \<le> int (length lineText)
               \<and> startCharacter (range d) =
                   (if validColumn < int (length lineText) then validColumn else 0)
               \<and> (lineCount doc \<le> parseInt (matchGroup m 1)
                    \<longrightarrow> startLine (range d) = lineCount doc - 1))
            ds (allMatches errorOutput)"
  by (rule list_all2_mono_yields[OF returned_is_yielded(1)[OF assms]])
     (rule yields_clamped[OF assms(1)])



lemma yields_confined:
  assumes "lines doc \<noteq> []" and y: "yields doc d m"
  shows "startLine (range d) = endLine (range d)
         \<and> 0 \<le> startLine (range d) \<and> startLine (range d) \<le> lineCount doc - 1
         \<and> 0 \<le> startCharacter (range d)
         \<and> startCharacter (range d) \<le> endCharacter (range d)
         \<and> endCharacter (range d) \<le> int (length (lines doc ! nat (startLine (range d))))
         \<and> (validColumnOf doc m < int (length (lineTextOf doc m))
              \<longrightarrow> startCharacter (range d) + 1 \<le> endCharacter (range d))"
proof -
  let ?vl = "validLineOf doc m" and ?vc = "validColumnOf doc m" and ?lt = "lineTextOf doc m"
  have l: "0 \<le> ?vl" "?vl \<le> lineCount doc - 1"
    using validLineOf_bounds[OF assms(1), of m] by simp_all
  have c: "0 \<le> ?vc" "?vc \<le> int (length ?lt)" by (simp_all add: validColumnOf_def)
  have lt: "lines doc ! nat ?vl = ?lt" by (simp add: lineTextOf_def)
  show ?thesis
  proof (cases "?vc < int (length ?lt)")
    case True
    then have s: "nat ?vc < length ?lt" using c by linarith
    have "nat ?vc + 1 \<le> findTokenEnd ?lt (nat ?vc)" "findTokenEnd ?lt (nat ?vc) \<le> length ?lt"
      using findTokenEnd_bounds[OF s] by simp_all
    then have "?vc + 1 \<le> int (findTokenEnd ?lt (nat ?vc))"
      "int (findTokenEnd ?lt (nat ?vc)) \<le> int (length ?lt)"
      using c by linarith+
    then show ?thesis using yields_range(1)[OF assms(1) y] True l c lt by simp
  next
    case False
    then show ?thesis using yields_range(1)[OF assms(1) y] l lt by simp
  qed
qed

text \<open>
  Claim C10. Every diagnostic that the parser emits lies on one line of the document,
  between column 0 and the end of that line, with its start not after its end; when the
  clamped column is inside the line the range is at least one character wide, because
  \<^const>\<open>findTokenEnd\<close>, called with a start inside the line, returns at least \<open>start + 1\<close> and
  at most the length of the line. The parser emits one diagnostic for each match, unless
  the message of some match is blank: then it throws and emits none. (A document of the
  editor has at least one line.)
\<close>

theorem diagnostics_confined_to_line:
  assumes "lines doc \<noteq> []"
  shows "(if (\<exists>m \<in> set (allMatches errorOutput). blankMessage m)
          then parseCompilerErrors errorOutput doc = Throws MessageNotSet
          else (\<exists>ds. parseCompilerErrors errorOutput doc = Returns ds \<and>
            list_all2 (\<lambda>d m.
               startLine (range d) = endLine (range d)
               \<and> 0 \<le> startLine (range d) \<and> startLine (range d) \<le> lineCount doc - 1
               \<and> 0 \<le> startCharacter (range d)
               \<and> startCharacter (range d) \<le> endCharacter (range d)
               \<and> endCharacter (range d) \<le> int (length (lines doc ! nat (startLine (range d))))
               \<and> (validColumnOf doc m < int (length (lineTextOf doc m))
                    \<longrightarrow> startCharacter (range d) + 1 \<le> endCharacter (range d)))
             ds (allMatches errorOutput)))
       \<and> (\<forall>line start. start < length line \<longrightarrow>
             start + 1 \<le> findTokenEnd line start \<and> findTokenEnd line start \<le> length line)"
proof (cases "\<exists>m \<in> set (allMatches errorOutput). blankMessage m")
  case True
  then show ?thesis
    using parseCompilerErrors_blank[OF assms True] findTokenEnd_bounds by simp
next
  case False
  then obtain ds where ds: "parseCompilerErrors errorOutput doc = Returns ds"
      "list_all2 (yields doc) ds (allMatches errorOutput)"
    using parseCompilerErrors_allMatches[OF assms, of errorOutput] by blast
  have "list_all2 (\<lambda>d m.
               startLine (range d) = endLine (range d)
               \<and> 0 \<le> startLine (range d) \<and> startLine (range d) \<le> lineCount doc - 1
               \<and> 0 \<le> startCharacter (range d)
               \<and> startCharacter (range d) \<le> endCharacter (range d)
               \<and> endCharacter (range d) \<le> int (length (lines doc ! nat (startLine (range d))))
               \<and> (validColumnOf doc m < int (length (lineTextOf doc m))
                    \<longrightarrow> startCharacter (range d) + 1 \<le> endCharacter (range d)))
             ds (allMatches errorOutput)"
    by (rule list_all2_mono_yields[OF ds(2)]) (rule yields_confined[OF assms])
  with ds(1) False findTokenEnd_bounds show ?thesis by simp
qed

text \<open>
  The same at a text that reports column 5 of line 3, where a word starts: the parser
  returns, and the range of the first diagnostic is not empty and ends inside the line.
\<close>

theorem diagnostics_confined_to_line_witness:
  "lines tenLines \<noteq> [] \<and>
   (\<exists>d1 d2. parseCompilerErrors ''Parser error at line 3, column 5: boom'' tenLines
              = Returns [d1, d2]
       \<and> startCharacter (range d1) + 1 \<le> endCharacter (range d1)
       \<and> endCharacter (range d1) \<le> 10)
   \<and> 5 \<le> findTokenEnd ''let x = 1;'' 4 \<and> findTokenEnd ''let x = 1;'' 4 \<le> 10"
proof -
  let ?t = "''Parser error at line 3, column 5: boom''"
  have ne: "lines tenLines \<noteq> []" by (simp add: tenLines_def)
  define m1 where "m1 =
    \<lparr>index = 0, endIndex = 38, captures = [(3, ''boom''), (2, ''5''), (1, ''3'')]\<rparr>"
  define m2 where "m2 =
    \<lparr>index = 7, endIndex = 38, captures = [(3, ''boom''), (2, ''5''), (1, ''3'')]\<rparr>"
  have am: "allMatches ?t = [m1, m2]" unfolding m1_def m2_def by code_simp
  have nb: "\<not> (\<exists>m \<in> set (allMatches ?t). blankMessage m)"
    unfolding am m1_def m2_def by (simp add: blankMessage_def; code_simp)
  have vc: "validColumnOf tenLines m1 = 4" "lineTextOf tenLines m1 = ''let x = 1;''"
    unfolding m1_def by code_simp+
  note inst = diagnostics_confined_to_line[OF ne, of ?t]
  from inst nb obtain ds where
    ds: "parseCompilerErrors ?t tenLines = Returns ds" and
    full: "list_all2 (\<lambda>d m.
               startLine (range d) = endLine (range d)
               \<and> 0 \<le> startLine (range d) \<and> startLine (range d) \<le> lineCount tenLines - 1
               \<and> 0 \<le> startCharacter (range d)
               \<and> startCharacter (range d) \<le> endCharacter (range d)
               \<and> endCharacter (range d) \<le> int (length (lines tenLines ! nat (startLine (range d))))
               \<and> (validColumnOf tenLines m < int (length (lineTextOf tenLines m))
                    \<longrightarrow> startCharacter (range d) + 1 \<le> endCharacter (range d)))
             ds (allMatches ?t)"
    by auto
  from full obtain d1 d2 where d: "ds = [d1, d2]"
    and d1: "0 \<le> startLine (range d1)" "startLine (range d1) \<le> lineCount tenLines - 1"
      "endCharacter (range d1) \<le> int (length (lines tenLines ! nat (startLine (range d1))))"
      "startCharacter (range d1) + 1 \<le> endCharacter (range d1)"
    unfolding am by (auto simp: list_all2_Cons2 vc)
  have "nat (startLine (range d1)) < 10" using d1(1,2) by (simp add: lineCount_def tenLines_def)
  then have "lines tenLines ! nat (startLine (range d1)) = ''let x = 1;''"
    by (simp add: tenLines_def)
  then have "endCharacter (range d1) \<le> 10" using d1(3) by simp
  moreover have "5 \<le> findTokenEnd ''let x = 1;'' 4 \<and> findTokenEnd ''let x = 1;'' 4 \<le> 10"
  proof -
    from inst have "4 < length ''let x = 1;'' \<longrightarrow>
        4 + 1 \<le> findTokenEnd ''let x = 1;'' 4
        \<and> findTokenEnd ''let x = 1;'' 4 \<le> length ''let x = 1;''"
      by blast
    then show ?thesis by simp
  qed
  ultimately show ?thesis using ds d d1(4) ne by blast
qed

text \<open>
  Claim C9. The parser is a function of the error text and the document, and its patterns
  are searched from position 0 on every call, so two runs on the same input end the same
  way: both return the same sequence, or both throw. The sequence lists the diagnostics
  of the matches of the first pattern, then those of the second, and so on; within one
  pattern the matches come by strictly increasing position in the text. (The parser
  throws, and returns no sequence, exactly when the message of some match is blank.)
\<close>

theorem parseCompilerErrors_order:
  assumes "lines doc \<noteq> []"
  shows "(if (\<exists>m \<in> set (concat (map (\<lambda>p. matchList p errorOutput 0) patterns)). blankMessage m)
          then parseCompilerErrors errorOutput doc = Throws MessageNotSet
          else (\<exists>ds. parseCompilerErrors errorOutput doc = Returns ds
                  \<and> list_all2 (yields doc) ds
                        (concat (map (\<lambda>p. matchList p errorOutput 0) patterns))))
       \<and> (\<forall>p \<in> set patterns. sorted_wrt (<) (map index (matchList p errorOutput 0)))"
  using parseCompilerErrors_outcome[OF assms, of errorOutput] matchList_increasing
  unfolding allMatches_def by simp

definition twoErrors :: string where
  "twoErrors = ''error: line 2, column 1: late'' @ [CHR 0x0A] @
               ''Syntax error at line 1, column 1: early'' @ [CHR 0x0A] @
               ''Parse error at line 3, column 1: last''"

lemma yields_messages:
  assumes "lines doc \<noteq> []" and "list_all2 (yields doc) ds ms"
  shows "map message ds = map (\<lambda>m. trim (matchGroup m 3)) ms"
  using assms(2) by (induction rule: list_all2_induct) (simp_all add: yields_range(2)[OF assms(1)])

text \<open>
  The same at a text whose first line is found by the fourth pattern only: its
  diagnostic comes last.
\<close>

theorem parseCompilerErrors_order_witness:
  "lines tenLines \<noteq> [] \<and>
   (\<exists>ds. parseCompilerErrors twoErrors tenLines = Returns ds
       \<and> map message ds = [''early'', ''last'', ''early'', ''last'', ''late''])
   \<and> map (\<lambda>p. map index (matchList p twoErrors 0)) patterns = [[30, 70], [], [37, 76], [0]]"
proof -
  have ne: "lines tenLines \<noteq> []" by (simp add: tenLines_def)
  define ms where "ms = concat (map (\<lambda>p. matchList p twoErrors 0) patterns)"
  have msgs: "map (\<lambda>m. trim (matchGroup m 3)) ms = [''early'', ''last'', ''early'', ''last'', ''late'']"
    unfolding ms_def by code_simp
  have nb: "\<not> (\<exists>m \<in> set ms. blankMessage m)"
  proof
    assume "\<exists>m \<in> set ms. blankMessage m"
    then obtain m where "m \<in> set ms" "trim (matchGroup m 3) = []"
      by (auto simp: blankMessage_def)
    then have "[] \<in> (\<lambda>m. trim (matchGroup m 3)) ` set ms" by (metis imageI)
    then have "[] \<in> set (map (\<lambda>m. trim (matchGroup m 3)) ms)" by simp
    then show False unfolding msgs by simp
  qed
  have idx: "map (\<lambda>p. map index (matchList p twoErrors 0)) patterns = [[30, 70], [], [37, 76], [0]]"
    by code_simp
  from parseCompilerErrors_order[OF ne, of twoErrors] nb obtain ds where
    ds: "parseCompilerErrors twoErrors tenLines = Returns ds" and
    y: "list_all2 (yields tenLines) ds ms"
    unfolding ms_def by auto
  have "map message ds = [''early'', ''last'', ''early'', ''last'', ''late'']"
    using yields_messages[OF ne y] msgs by simp
  with ds ne idx show ?thesis by (intro conjI exI[of _ ds]) simp_all
qed

definition lexerErrorText :: string where
  "lexerErrorText =
     ''Lexer error at line 5, column 3: Unexpected character '' @ [CHR 0x27] @ ''&'' @ [CHR 0x27]"

definition unexpectedCharacter :: string where
  "unexpectedCharacter = ''Unexpected character '' @ [CHR 0x27] @ ''&'' @ [CHR 0x27]"

definition tenShortLines :: textDocument where
  "tenShortLines = \<lparr> uri = ''/ws/short.vey'', languageId = ''veyra'',
                      lines = replicate 10 ''x'' \<rparr>"

text \<open>
  Claim C1 (amended). For the text \<^verbatim>\<open>Lexer error at line 5, column 3: Unexpected character '&'\<close>
  and a document of ten lines the parser returns at least one diagnostic, and every
  diagnostic it returns has severity Error, the message \<^verbatim>\<open>Unexpected character '&'\<close> and a
  range on line 4 (0-based). The range starts at column 2 when that line has more than two
  characters; otherwise it is the whole line, from column 0.
\<close>

theorem lexer_error_on_ten_lines:
  assumes "length (lines doc) = 10"
  shows "\<exists>ds. parseCompilerErrors lexerErrorText doc = Returns ds \<and> ds \<noteq> [] \<and>
           (\<forall>d \<in> set ds.
              startLine (range d) = 4 \<and> endLine (range d) = 4
              \<and> severity d = Error \<and> message d = unexpectedCharacter
              \<and> (if 2 < length (lines doc ! 4) then startCharacter (range d) = 2
                  else startCharacter (range d) = 0
                       \<and> endCharacter (range d) = int (length (lines doc ! 4))))"
proof -
  have ne: "lines doc \<noteq> []" using assms by auto
  define m1 where "m1 = \<lparr>index = 0, endIndex = 57,
     captures = [(3, unexpectedCharacter), (2, ''3''), (1, ''5'')]\<rparr>"
  define m2 where "m2 = \<lparr>index = 6, endIndex = 57,
     captures = [(3, unexpectedCharacter), (2, ''3''), (1, ''5'')]\<rparr>"
  have am: "allMatches lexerErrorText = [m1, m2]" unfolding m1_def m2_def by code_simp
  have g: "parseInt (matchGroup m 1) = 5" "parseInt (matchGroup m 2) = 3"
    "trim (matchGroup m 3) = unexpectedCharacter"
    "\<not> includesStr (toLowerCase (trim (matchGroup m 3))) ''warning''"
    if "m = m1 \<or> m = m2" for m
    using that unfolding m1_def m2_def by (elim disjE; simp; code_simp)+
  have shape: "startLine (range d) = 4 \<and> endLine (range d) = 4
              \<and> severity d = Error \<and> message d = unexpectedCharacter
              \<and> (if 2 < length (lines doc ! 4) then startCharacter (range d) = 2
                  else startCharacter (range d) = 0
                       \<and> endCharacter (range d) = int (length (lines doc ! 4)))"
    if y: "yields doc d m" and m: "m = m1 \<or> m = m2" for d m
  proof -
    have vl: "validLineOf doc m = 4"
      unfolding validLineOf_def g(1)[OF m] lineCount_def using assms by simp
    have lt: "lineTextOf doc m = lines doc ! 4" by (simp add: lineTextOf_def vl)
    have vc: "validColumnOf doc m = min 2 (int (length (lines doc ! 4)))"
      unfolding validColumnOf_def lt g(2)[OF m] by simp
    show ?thesis
      using yields_range[OF ne y] g(3,4)[OF m] by (auto simp: vl lt vc split: if_splits)
  qed
  have nb: "\<forall>m \<in> set (allMatches lexerErrorText). \<not> blankMessage m"
    unfolding am using g(3) by (auto simp: blankMessage_def unexpectedCharacter_def)
  obtain ds where ds: "parseCompilerErrors lexerErrorText doc = Returns ds"
      "list_all2 (yields doc) ds [m1, m2]"
    using parseCompilerErrors_allMatches[OF ne nb] unfolding am by blast
  from ds(2) obtain d1 d2 where d: "ds = [d1, d2]" "yields doc d1 m1" "yields doc d2 m2"
    by (auto simp: list_all2_Cons2)
  show ?thesis using ds(1) d shape by auto
qed

theorem lexer_error_on_ten_lines_witness:
  "length (lines tenLines) = 10 \<and>
   (\<exists>ds. parseCompilerErrors lexerErrorText tenLines = Returns ds \<and> ds \<noteq> [] \<and>
      (\<forall>d \<in> set ds. startLine (range d) = 4 \<and> startCharacter (range d) = 2
          \<and> severity d = Error \<and> message d = unexpectedCharacter))"
proof -
  have n: "length (lines tenLines) = 10" by (simp add: tenLines_def)
  have "lines tenLines ! 4 = ''let x = 1;''" by (simp add: tenLines_def)
  then show ?thesis using lexer_error_on_ten_lines[OF n] n by auto
qed

text \<open>
  Claim C1 as it is written fails: on a document of ten lines \<^verbatim>\<open>x\<close> the parser returns
  two diagnostics, not one (the text matches the first pattern at position 0 and the third
  pattern, which ignores case, at position 6), and both start at column 0, not at
  column 2 (line 4 has one character, so the clamped column is at its end and the whole
  line is taken).
\<close>

theorem lexer_error_counterexample:
  "parseCompilerErrors lexerErrorText tenShortLines =
     Returns [\<lparr> range = \<lparr> startLine = 4, startCharacter = 0, endLine = 4, endCharacter = 1 \<rparr>,
                 message = unexpectedCharacter, severity = Error, diagSource = ''veyra'' \<rparr>,
              \<lparr> range = \<lparr> startLine = 4, startCharacter = 0, endLine = 4, endCharacter = 1 \<rparr>,
                 message = unexpectedCharacter, severity = Error, diagSource = ''veyra'' \<rparr>]"
  by code_simp

section \<open>Finding the tools\<close>

text \<open>
  What the extension reads from the machine it runs on: the file system, the settings
  \<^verbatim>\<open>veyra.*\<close>, the workspace folders, Node's \<^verbatim>\<open>path\<close> module (which depends on the
  platform), and what happens when a command is run.
\<close>

datatype processOutcome =
    Exited nat        \<comment> \<open>the process ran and ended with this exit status before the timeout\<close>
  | NotSpawned        \<comment> \<open>the process could not be started\<close>
  | TimedOut          \<comment> \<open>the process was still running when the timeout expired\<close>

record environment =
  isAbsolute :: "string \<Rightarrow> bool"                \<comment> \<open>\<^verbatim>\<open>path.isAbsolute\<close>\<close>
  pathJoin :: "string list \<Rightarrow> string"            \<comment> \<open>\<^verbatim>\<open>path.join\<close>\<close>
  dirname :: "string \<Rightarrow> string"                  \<comment> \<open>\<^verbatim>\<open>path.dirname\<close>\<close>
  sep :: char                                     \<comment> \<open>\<^verbatim>\<open>path.sep\<close>\<close>
  win32 :: bool                                   \<comment> \<open>\<^verbatim>\<open>process.platform === 'win32'\<close>\<close>
  existsSync :: "string \<Rightarrow> bool"                \<comment> \<open>\<^verbatim>\<open>fs.existsSync\<close>\<close>
  statIsFile :: "string \<Rightarrow> error + bool"        \<comment> \<open>\<^verbatim>\<open>fs.statSync(p).isFile()\<close>\<close>
  helpOutcome :: "string \<Rightarrow> processOutcome"     \<comment> \<open>running \<^verbatim>\<open>"p" --help\<close> for at most 5000 ms\<close>
  workspaceFolders :: "string list option"        \<comment> \<open>the \<^verbatim>\<open>fsPath\<close> of each folder, if any is open\<close>
  configuration :: "string \<Rightarrow> string option"    \<comment> \<open>the settings \<^verbatim>\<open>veyra.<key>\<close>\<close>

definition execSync :: "processOutcome \<Rightarrow> error + unit" where
  \<comment> \<open>\<^verbatim>\<open>child_process.execSync\<close> returns only when the command ends with exit status 0
      within the timeout, and throws otherwise\<close>
  "execSync outcome =
     (case outcome of
        Exited code \<Rightarrow> if code = 0 then Inr () else Inl (CommandFailed code)
      | NotSpawned \<Rightarrow> Inl SpawnFailed
      | TimedOut \<Rightarrow> Inl ProcessTimedOut)"

definition configGet :: "environment \<Rightarrow> string \<Rightarrow> string" where
  \<comment> \<open>\<^verbatim>\<open>config.get(key, '')\<close>; the callers only test the result for being non-empty\<close>
  "configGet env key = (case configuration env key of Some v \<Rightarrow> v | None \<Rightarrow> [])"

definition isExecutableAvailable :: "environment \<Rightarrow> string \<Rightarrow> error + bool" where
  \<comment> \<open>\<^verbatim>\<open>extension.ts\<close>: the \<^verbatim>\<open>try\<close> block, and \<^verbatim>\<open>catch (error) { return false; }\<close>\<close>
  "isExecutableAvailable env executablePath =
     (case (if isAbsolute env executablePath \<and> \<not> existsSync env executablePath
            then Inr False
            else (case execSync (helpOutcome env executablePath) of
                    Inl e \<Rightarrow> Inl e
                  | Inr _ \<Rightarrow> Inr True)) of
        Inl e \<Rightarrow> Inr False
      | Inr b \<Rightarrow> Inr b)"

definition ToolManager_isExecutableAvailable :: "environment \<Rightarrow> string \<Rightarrow> error + bool" where
  \<comment> \<open>\<^verbatim>\<open>toolManager.ts\<close>: a bare name is taken to be available, a path must be a file\<close>
  "ToolManager_isExecutableAvailable env executablePath =
     (case (if \<not> isAbsolute env executablePath \<and> sep env \<notin> set executablePath
            then Inr True
            else if existsSync env executablePath then statIsFile env executablePath
            else Inr False) of
        Inl e \<Rightarrow> Inr False
      | Inr b \<Rightarrow> Inr b)"

fun firstAvailable :: "(string \<Rightarrow> error + bool) \<Rightarrow> string list \<Rightarrow> error + string option" where
  \<comment> \<open>\<^verbatim>\<open>for (const testPath of possiblePaths) if (probe(testPath)) return testPath; return null\<close>\<close>
  "firstAvailable probe [] = Inr None"
| "firstAvailable probe (testPath # rest) =
     (case probe testPath of
        Inl e \<Rightarrow> Inl e
      | Inr b \<Rightarrow> if b then Inr (Some testPath) else firstAvailable probe rest)"

fun parentLoop :: "environment \<Rightarrow> string \<Rightarrow> string \<Rightarrow> nat \<Rightarrow> string list" where
  \<comment> \<open>\<^verbatim>\<open>for (let i = 0; i < 3; i++) { possiblePaths.push(...); parentPath = path.dirname(parentPath) }\<close>,
      with the number of rounds that are left\<close>
  "parentLoop env toolName parentPath 0 = []"
| "parentLoop env toolName parentPath (Suc n) =
     [pathJoin env [parentPath, ''tools'', ''target'', ''release'', toolName @ ''.exe''],
      pathJoin env [parentPath, ''tools'', ''target'', ''debug'', toolName @ ''.exe'']]
     @ parentLoop env toolName (dirname env parentPath) n"

definition folderPaths :: "environment \<Rightarrow> string \<Rightarrow> string \<Rightarrow> string list" where
  \<comment> \<open>what one round of \<^verbatim>\<open>for (const folder of vscode.workspace.workspaceFolders)\<close> pushes\<close>
  "folderPaths env toolName workspacePath =
     [pathJoin env [workspacePath, ''tools'', ''target'', ''release'', toolName @ ''.exe''],
      pathJoin env [workspacePath, ''tools'', ''target'', ''debug'', toolName @ ''.exe''],
      pathJoin env [workspacePath, ''target'', ''release'', toolName @ ''.exe''],
      pathJoin env [workspacePath, ''target'', ''debug'', toolName @ ''.exe'']]
     @ parentLoop env toolName (dirname env workspacePath) 3"

definition possiblePaths :: "environment \<Rightarrow> string \<Rightarrow> string list" where
  \<comment> \<open>the array \<^verbatim>\<open>possiblePaths\<close> of \<^verbatim>\<open>findVeyraTool\<close> when the probing starts; \<^verbatim>\<open>unshift\<close>
      puts the configured path in front\<close>
  "possiblePaths env toolName =
     (let pushed = [toolName, toolName @ ''.exe'']
            @ (case workspaceFolders env of
                 None \<Rightarrow> []
               | Some folders \<Rightarrow> concat (map (folderPaths env toolName) folders));
          configuredPath = configGet env (toolName @ ''Path'')
      in if configuredPath \<noteq> [] then configuredPath # pushed else pushed)"

definition findVeyraTool :: "environment \<Rightarrow> string \<Rightarrow> error + string option" where
  "findVeyraTool env toolName =
     firstAvailable (isExecutableAvailable env) (possiblePaths env toolName)"

definition searchPaths :: "environment \<Rightarrow> string \<Rightarrow> string list" where
  \<comment> \<open>the array \<^verbatim>\<open>searchPaths\<close> of \<^verbatim>\<open>ToolManager.findTool\<close>\<close>
  "searchPaths env toolName =
     (let execName = (if win32 env then toolName @ ''.exe'' else toolName);
          workspaceFolder = (case workspaceFolders env of
                               None \<Rightarrow> None | Some [] \<Rightarrow> None | Some (f # _) \<Rightarrow> Some f);
          configuredPath = configGet env (toolName @ ''Path'')
      in (case workspaceFolder of
            None \<Rightarrow> []
          | Some f \<Rightarrow> [pathJoin env [f, ''tools'', ''target'', ''release'', execName],
                       pathJoin env [f, ''tools'', ''target'', ''debug'', execName]])
         @ (if configuredPath \<noteq> [] then [configuredPath] else [])
         @ [toolName])"

definition ToolManager_findTool :: "environment \<Rightarrow> string \<Rightarrow> error + string option" where
  "ToolManager_findTool env toolName =
     firstAvailable (ToolManager_isExecutableAvailable env) (searchPaths env toolName)"

text \<open>A machine to run the examples on: POSIX paths, one workspace folder, one setting.\<close>

fun joinWithSlash :: "string list \<Rightarrow> string" where
  "joinWithSlash [] = ''.''"
| "joinWithSlash [p] = p"
| "joinWithSlash (p # ps) = p @ ''/'' @ joinWithSlash ps"

definition parentDirectory :: "string \<Rightarrow> string" where
  "parentDirectory p =
     (let d = rev (drop 1 (dropWhile (\<lambda>c. c \<noteq> CHR ''/'') (rev p)))
      in if d = [] then ''/'' else d)"

definition sampleMachine :: environment where
  "sampleMachine = \<lparr>
     isAbsolute = (\<lambda>p. take 1 p = ''/''),
     pathJoin = joinWithSlash,
     dirname = parentDirectory,
     sep = CHR ''/'',
     win32 = False,
     existsSync = (\<lambda>p. p \<in> set [''/opt/veyra/veyra-fmt'', ''/ws/proj/tools/target/release/veyra-fmt'']),
     statIsFile = (\<lambda>p. if p \<in> set [''/opt/veyra/veyra-fmt'', ''/ws/proj/tools/target/release/veyra-fmt'']
                        then Inr True else Inl StatFailed),
     helpOutcome = (\<lambda>p. if p \<in> set [''/opt/veyra/veyra-fmt'', ''veyra-fmt''] then Exited 0
                         else if p = ''veyra-lint'' then Exited 1
                         else Exited 127),
     workspaceFolders = Some [''/ws/proj''],
     configuration = (\<lambda>key. if key = ''veyra-fmtPath'' then Some ''/opt/veyra/veyra-fmt'' else None) \<rparr>"

lemma isExecutableAvailable_eq:
  "isExecutableAvailable env p =
     Inr (\<not> (isAbsolute env p \<and> \<not> existsSync env p) \<and> helpOutcome env p = Exited 0)"
  by (cases "helpOutcome env p") (auto simp: isExecutableAvailable_def execSync_def)

lemma ToolManager_isExecutableAvailable_eq:
  "ToolManager_isExecutableAvailable env p =
     Inr (if \<not> isAbsolute env p \<and> sep env \<notin> set p then True
          else existsSync env p \<and> statIsFile env p = Inr True)"
  by (cases "statIsFile env p") (auto simp: ToolManager_isExecutableAvailable_def)

lemma firstAvailable_find:
  assumes "\<And>p. \<exists>b. probe p = Inr b"
  shows "firstAvailable probe ps = Inr (find (\<lambda>p. probe p = Inr True) ps)"
proof (induction ps)
  case Nil
  show ?case by simp
next
  case (Cons p ps)
  obtain b where "probe p = Inr b" using assms by blast
  then show ?case using Cons by simp
qed

lemma findVeyraTool_find:
  "findVeyraTool env toolName =
     Inr (find (\<lambda>p. isExecutableAvailable env p = Inr True) (possiblePaths env toolName))"
  unfolding findVeyraTool_def
  by (rule firstAvailable_find) (simp add: isExecutableAvailable_eq)

lemma ToolManager_findTool_find:
  "ToolManager_findTool env toolName =
     Inr (find (\<lambda>p. ToolManager_isExecutableAvailable env p = Inr True) (searchPaths env toolName))"
  unfolding ToolManager_findTool_def
  by (rule firstAvailable_find) (simp add: ToolManager_isExecutableAvailable_eq)

text \<open>
  Claim C4 (amended). Neither probe ever throws. The probe of \<^verbatim>\<open>extension.ts\<close> answers
  true exactly when the path is not an absolute path that does not exist and the help
  invocation ends with exit status 0 within the timeout: a help invocation that exits with
  another status, that cannot be started or that times out gives false. The probe of
  \<^verbatim>\<open>toolManager.ts\<close> starts no process: a bare name gives true, any other path gives true
  exactly when it exists and is a file.
\<close>

theorem probes_return_booleans:
  "isExecutableAvailable env p =
     Inr (\<not> (isAbsolute env p \<and> \<not> existsSync env p) \<and> helpOutcome env p = Exited 0)
   \<and> ToolManager_isExecutableAvailable env p =
     Inr (if \<not> isAbsolute env p \<and> sep env \<notin> set p then True
          else existsSync env p \<and> statIsFile env p = Inr True)"
  using isExecutableAvailable_eq ToolManager_isExecutableAvailable_eq by blast

text \<open>
  Claim C4 as it is written fails: a help invocation that ends with exit status 1 is a
  non-crash exit, and the probe answers false.
\<close>

theorem probe_nonzero_exit_counterexample:
  "helpOutcome sampleMachine ''veyra-lint'' = Exited 1
   \<and> isExecutableAvailable sampleMachine ''veyra-lint'' = Inr False"
  by (simp add: sampleMachine_def isExecutableAvailable_def execSync_def)


text \<open>
  The same on the sample machine: a path that exists and answers the help flag with exit
  status 0, a bare name for the other probe, and an absolute path that does not exist.
\<close>

theorem probes_return_booleans_witness:
  "isExecutableAvailable sampleMachine ''/opt/veyra/veyra-fmt'' = Inr True
   \<and> ToolManager_isExecutableAvailable sampleMachine ''veyra-fmt'' = Inr True
   \<and> isExecutableAvailable sampleMachine ''/nowhere/veyc'' = Inr False"
  using probes_return_booleans[of sampleMachine "''/opt/veyra/veyra-fmt''"]
    probes_return_booleans[of sampleMachine "''veyra-fmt''"]
    probes_return_booleans[of sampleMachine "''/nowhere/veyc''"]
  by (simp add: sampleMachine_def)

lemma parentLoop_3:
  "parentLoop env toolName p1 3 =
     [pathJoin env [p1, ''tools'', ''target'', ''release'', toolName @ ''.exe''],
      pathJoin env [p1, ''tools'', ''target'', ''debug'', toolName @ ''.exe''],
      pathJoin env [dirname env p1, ''tools'', ''target'', ''release'', toolName @ ''.exe''],
      pathJoin env [dirname env p1, ''tools'', ''target'', ''debug'', toolName @ ''.exe''],
      pathJoin env [dirname env (dirname env p1), ''tools'', ''target'', ''release'', toolName @ ''.exe''],
      pathJoin env [dirname env (dirname env p1), ''tools'', ''target'', ''debug'', toolName @ ''.exe'']]"
  by (simp add: numeral_3_eq_3)

text \<open>
  Claim C2 (amended). \<^verbatim>\<open>findVeyraTool\<close> probes, in this order: the configured override
  when it is not empty; the bare tool name; the name with \<^verbatim>\<open>.exe\<close>; then for each workspace
  folder in turn its \<^verbatim>\<open>tools/target/release\<close>, \<^verbatim>\<open>tools/target/debug\<close>, \<^verbatim>\<open>target/release\<close> and
  \<^verbatim>\<open>target/debug\<close>, followed by \<^verbatim>\<open>tools/target/release\<close> and \<^verbatim>\<open>tools/target/debug\<close> of its
  three nearest ancestors, nearest first. It returns the first path its probe accepts, so
  a configured override that the probe accepts is the result whatever the later candidates
  are. \<^verbatim>\<open>ToolManager.findTool\<close> probes \<^verbatim>\<open>tools/target/release\<close> and \<^verbatim>\<open>tools/target/debug\<close> of
  the first workspace folder, then the configured override, then the bare tool name, and
  returns the first path its own probe accepts.
\<close>

theorem tool_resolution_order:
  "possiblePaths env toolName =
     (if configGet env (toolName @ ''Path'') \<noteq> [] then [configGet env (toolName @ ''Path'')]
      else [])
     @ [toolName, toolName @ ''.exe'']
     @ concat (map (\<lambda>ws.
         [pathJoin env [ws, ''tools'', ''target'', ''release'', toolName @ ''.exe''],
          pathJoin env [ws, ''tools'', ''target'', ''debug'', toolName @ ''.exe''],
          pathJoin env [ws, ''target'', ''release'', toolName @ ''.exe''],
          pathJoin env [ws, ''target'', ''debug'', toolName @ ''.exe''],
          pathJoin env [dirname env ws, ''tools'', ''target'', ''release'', toolName @ ''.exe''],
          pathJoin env [dirname env ws, ''tools'', ''target'', ''debug'', toolName @ ''.exe''],
          pathJoin env [dirname env (dirname env ws),
                        ''tools'', ''target'', ''release'', toolName @ ''.exe''],
          pathJoin env [dirname env (dirname env ws),
                        ''tools'', ''target'', ''debug'', toolName @ ''.exe''],
          pathJoin env [dirname env (dirname env (dirname env ws)),
                        ''tools'', ''target'', ''release'', toolName @ ''.exe''],
          pathJoin env [dirname env (dirname env (dirname env ws)),
                        ''tools'', ''target'', ''debug'', toolName @ ''.exe'']])
        (case workspaceFolders env of None \<Rightarrow> [] | Some folders \<Rightarrow> folders))
   \<and> findVeyraTool env toolName =
       Inr (find (\<lambda>p. isExecutableAvailable env p = Inr True) (possiblePaths env toolName))
   \<and> (configGet env (toolName @ ''Path'') \<noteq> []
        \<and> isExecutableAvailable env (configGet env (toolName @ ''Path'')) = Inr True
       \<longrightarrow> findVeyraTool env toolName = Inr (Some (configGet env (toolName @ ''Path''))))
   \<and> searchPaths env toolName =
       (case workspaceFolders env of
          Some (ws # _) \<Rightarrow>
            [pathJoin env [ws, ''tools'', ''target'', ''release'',
                           if win32 env then toolName @ ''.exe'' else toolName],
             pathJoin env [ws, ''tools'', ''target'', ''debug'',
                           if win32 env then toolName @ ''.exe'' else toolName]]
        | _ \<Rightarrow> [])
       @ (if configGet env (toolName @ ''Path'') \<noteq> [] then [configGet env (toolName @ ''Path'')]
          else [])
       @ [toolName]
   \<and> ToolManager_findTool env toolName =
       Inr (find (\<lambda>p. ToolManager_isExecutableAvailable env p = Inr True)
              (searchPaths env toolName))"
  (is "?paths \<and> ?first \<and> ?override \<and> ?search \<and> ?firstTM")
proof -
  have paths: ?paths
    unfolding possiblePaths_def folderPaths_def parentLoop_3 Let_def
    by (cases "workspaceFolders env") simp_all
  have override: ?override
    unfolding findVeyraTool_find paths by simp
  have search: ?search
    unfolding searchPaths_def Let_def by (simp split: option.splits list.splits)
  show ?thesis
    using paths findVeyraTool_find override search ToolManager_findTool_find by blast
qed

text \<open>
  The same on the sample machine: the override is accepted and returned, although the
  bare name, a later candidate, is accepted too.
\<close>

theorem tool_resolution_order_witness:
  "configGet sampleMachine ''veyra-fmtPath'' = ''/opt/veyra/veyra-fmt''
   \<and> isExecutableAvailable sampleMachine ''/opt/veyra/veyra-fmt'' = Inr True
   \<and> isExecutableAvailable sampleMachine ''veyra-fmt'' = Inr True
   \<and> findVeyraTool sampleMachine ''veyra-fmt'' = Inr (Some ''/opt/veyra/veyra-fmt'')"
proof -
  have c: "configGet sampleMachine (''veyra-fmt'' @ ''Path'') = ''/opt/veyra/veyra-fmt''"
    by (simp add: configGet_def sampleMachine_def)
  have a: "isExecutableAvailable sampleMachine ''/opt/veyra/veyra-fmt'' = Inr True"
    "isExecutableAvailable sampleMachine ''veyra-fmt'' = Inr True"
    by (simp_all add: isExecutableAvailable_eq sampleMachine_def)
  have "findVeyraTool sampleMachine ''veyra-fmt'' = Inr (Some ''/opt/veyra/veyra-fmt'')"
    using tool_resolution_order[of sampleMachine "''veyra-fmt''"] a(1) unfolding c by simp
  then show ?thesis using c a by simp
qed

text \<open>
  Claim C2 as it is written fails for \<^verbatim>\<open>ToolManager.findTool\<close>: with an override that its
  probe accepts and a release build in the workspace, the workspace build is returned.
\<close>

theorem tool_resolution_counterexample:
  "configGet sampleMachine ''veyra-fmtPath'' = ''/opt/veyra/veyra-fmt''
   \<and> ToolManager_isExecutableAvailable sampleMachine ''/opt/veyra/veyra-fmt'' = Inr True
   \<and> ToolManager_findTool sampleMachine ''veyra-fmt''
       = Inr (Some ''/ws/proj/tools/target/release/veyra-fmt'')"
  by (simp add: configGet_def sampleMachine_def ToolManager_findTool_def searchPaths_def
        ToolManager_isExecutableAvailable_def Let_def)

section \<open>Validating documents\<close>

text \<open>
  \<^verbatim>\<open>validateDocument\<close> is asynchronous: it runs up to \<^verbatim>\<open>await execAsync(...)\<close>, and the rest
  runs when the child process has ended. Between the two, other handlers run. The state
  below is what the handlers of \<^verbatim>\<open>setupDiagnostics\<close> share: the module variables
  \<^verbatim>\<open>compilerPath\<close> and \<^verbatim>\<open>diagnosticCollection\<close>, the variable \<^verbatim>\<open>timeoutId\<close> of the closure,
  the timeouts that the runtime holds, and the calls of \<^verbatim>\<open>execAsync\<close> that have not ended.
  A document is a live object of the editor, known by its \<^verbatim>\<open>uri\<close>. The status bar, which
  \<^verbatim>\<open>updateStatusBar\<close> redraws from the published diagnostics, is left out.
\<close>

record execResult =
  outcome :: processOutcome   \<comment> \<open>how the child process ended (timeout 5000 ms)\<close>
  stdout :: string
  stderr :: string
  bufferExceeded :: bool      \<comment> \<open>stdout or stderr grew beyond \<^verbatim>\<open>maxBuffer\<close> (1 MiB: the call sets
                                  none); \<^verbatim>\<open>exec\<close> then keeps the output up to the limit\<close>
  errorMessage :: string      \<comment> \<open>\<^verbatim>\<open>error.message\<close> of the rejection\<close>

definition fulfilled :: "execResult \<Rightarrow> bool" where
  \<comment> \<open>the promise of \<^verbatim>\<open>execAsync\<close> is fulfilled when the command ended with exit status 0 and
      its output stayed within the buffer; it is rejected after any other exit status, a
      timeout, a failure to start, and after output beyond the buffer whatever the exit
      status\<close>
  "fulfilled r \<longleftrightarrow> outcome r = Exited 0 \<and> \<not> bufferExceeded r"

record extensionState =
  compilerPath :: "string option"
  documents :: "string \<Rightarrow> textDocument"
  diagnosticCollection :: "string \<rightharpoonup> diagnostic list"
  timeoutId :: "nat option"
  timers :: "(nat \<times> string) list"     \<comment> \<open>pending timeouts: handle and document of the callback\<close>
  nextTimer :: nat
  inFlight :: "(string \<times> string) list"  \<comment> \<open>running \<^verbatim>\<open>execAsync\<close> calls, oldest first: command, document\<close>
  spawned :: "string list"              \<comment> \<open>every command given to \<^verbatim>\<open>execAsync\<close> so far\<close>

definition initialState :: "string option \<Rightarrow> (string \<Rightarrow> textDocument) \<Rightarrow> extensionState" where
  "initialState cp docs = \<lparr> compilerPath = cp, documents = docs,
     diagnosticCollection = Map.empty, timeoutId = None, timers = [], nextTimer = 0,
     inFlight = [], spawned = [] \<rparr>"

definition checkCommand :: "string \<Rightarrow> string \<Rightarrow> string" where
  \<comment> \<open>\<^verbatim>\<open>`"${compilerPath}" "${tempFilePath}"`\<close>\<close>
  "checkCommand cp fsPath = [CHR 0x22] @ cp @ [CHR 0x22] @ '' '' @ [CHR 0x22] @ fsPath @ [CHR 0x22]"

definition validateDocument :: "textDocument \<Rightarrow> extensionState \<Rightarrow> extensionState" where
  \<comment> \<open>up to the \<^verbatim>\<open>await\<close>\<close>
  "validateDocument document s =
     (case compilerPath s of
        None \<Rightarrow> s\<lparr> diagnosticCollection := (diagnosticCollection s)(uri document := None) \<rparr>
      | Some cp \<Rightarrow>
          s\<lparr> inFlight := inFlight s @ [(checkCommand cp (uri document), uri document)],
             spawned := spawned s @ [checkCommand cp (uri document)] \<rparr>)"

definition errorText :: "execResult \<Rightarrow> string" where
  \<comment> \<open>\<^verbatim>\<open>error.stderr || error.stdout || error.message\<close>\<close>
  "errorText r = (if stderr r \<noteq> [] then stderr r
                  else if stdout r \<noteq> [] then stdout r else errorMessage r)"

definition validateDocument_settled ::
  "execResult \<Rightarrow> string \<Rightarrow> extensionState \<Rightarrow> extensionState result" where
  \<comment> \<open>after the \<^verbatim>\<open>await\<close>: the rest of the \<^verbatim>\<open>try\<close> block when the promise is fulfilled, the
      \<^verbatim>\<open>catch\<close> block when it is rejected. An exception of the parser leaves the \<^verbatim>\<open>catch\<close>
      block before anything is published.\<close>
  "validateDocument_settled r u s =
     (if fulfilled r
      then Returns (s\<lparr> diagnosticCollection := (diagnosticCollection s)(u := None) \<rparr>)
      else (case parseCompilerErrors (errorText r) (documents s u) of
              Returns diagnostics \<Rightarrow>
                Returns (s\<lparr> diagnosticCollection := (diagnosticCollection s)(u \<mapsto> diagnostics) \<rparr>)
            | Throws e \<Rightarrow> Throws e
            | Diverges \<Rightarrow> Diverges))"

datatype event =
    DidOpen textDocument
  | DidChange textDocument
  | DidSave textDocument
  | DidClose textDocument
  | TimerFires nat               \<comment> \<open>the runtime runs the callback of this timeout, if it is pending\<close>
  | ExecSettles nat execResult   \<comment> \<open>the running call at this position ends\<close>

definition clearTimeout :: "nat \<Rightarrow> extensionState \<Rightarrow> extensionState" where
  "clearTimeout h s = s\<lparr> timers := filter (\<lambda>t. fst t \<noteq> h) (timers s) \<rparr>"

definition setTimeout :: "string \<Rightarrow> extensionState \<Rightarrow> extensionState" where
  \<comment> \<open>\<^verbatim>\<open>timeoutId = setTimeout(() => validateDocument(event.document), 500)\<close>\<close>
  "setTimeout u s = s\<lparr> timers := timers s @ [(nextTimer s, u)],
                        timeoutId := Some (nextTimer s),
                        nextTimer := Suc (nextTimer s) \<rparr>"

definition see :: "textDocument \<Rightarrow> extensionState \<Rightarrow> extensionState" where
  \<comment> \<open>the event brings the document as it is now\<close>
  "see d s = s\<lparr> documents := (documents s)(uri d := d) \<rparr>"

fun step :: "event \<Rightarrow> extensionState \<Rightarrow> extensionState result" where
  "step (DidOpen d) s =
     Returns (if languageId d = ''veyra'' then validateDocument d (see d s) else see d s)"
| "step (DidChange d) s =
     Returns (if languageId d = ''veyra''
              then setTimeout (uri d)
                     (case timeoutId s of
                        Some h \<Rightarrow> clearTimeout h (see d s)
                      | None \<Rightarrow> see d s)
              else see d s)"
| "step (DidSave d) s =
     Returns (if languageId d = ''veyra'' then validateDocument d (see d s) else see d s)"
| "step (DidClose d) s =
     Returns (if languageId d = ''veyra''
              then s\<lparr> diagnosticCollection := (diagnosticCollection s)(uri d := None) \<rparr>
              else s)"
| "step (TimerFires h) s =
     Returns (case map_of (timers s) h of
                None \<Rightarrow> s
              | Some u \<Rightarrow> validateDocument (documents s u) (clearTimeout h s))"
| "step (ExecSettles i r) s =
     (if i < length (inFlight s)
      then validateDocument_settled r (snd (inFlight s ! i))
             (s\<lparr> inFlight := take i (inFlight s) @ drop (Suc i) (inFlight s) \<rparr>)
      else Returns s)"

fun afterRejection :: "event \<Rightarrow> extensionState \<Rightarrow> extensionState" where
  \<comment> \<open>what a handler that throws leaves behind. Only the rest of \<^verbatim>\<open>validateDocument\<close> can
      throw; its promise is rejected, nobody handles that, and nothing was published.\<close>
  "afterRejection (ExecSettles i r) s =
     (if i < length (inFlight s)
      then s\<lparr> inFlight := take i (inFlight s) @ drop (Suc i) (inFlight s) \<rparr>
      else s)"
| "afterRejection e s = s"

fun run :: "event list \<Rightarrow> extensionState \<Rightarrow> extensionState result" where
  \<comment> \<open>the state after the events; the extension goes on after a handler has thrown\<close>
  "run [] s = Returns s"
| "run (e # es) s =
     (case step e s of
        Returns s' \<Rightarrow> run es s'
      | Throws x \<Rightarrow> run es (afterRejection e s)
      | Diverges \<Rightarrow> Diverges)"

text \<open>
  At most one timeout is pending, and it is the one that \<^verbatim>\<open>timeoutId\<close> names: every handler
  keeps it so.
\<close>

definition timerInv :: "extensionState \<Rightarrow> bool" where
  "timerInv s \<longleftrightarrow> timers s = [] \<or> (\<exists>h u. timers s = [(h, u)] \<and> timeoutId s = Some h)"

lemma timerInv_initial: "timerInv (initialState cp docs)"
  by (simp add: timerInv_def initialState_def)

lemma timers_validateDocument [simp]:
  "timers (validateDocument d s) = timers s" "timeoutId (validateDocument d s) = timeoutId s"
  by (simp_all add: validateDocument_def split: option.splits)

lemma timers_see [simp]:
  "timers (see d s) = timers s" "timeoutId (see d s) = timeoutId s"
  "nextTimer (see d s) = nextTimer s" "spawned (see d s) = spawned s"
  "inFlight (see d s) = inFlight s" "compilerPath (see d s) = compilerPath s"
  "diagnosticCollection (see d s) = diagnosticCollection s"
  "documents (see d s) (uri d) = d"
  by (simp_all add: see_def)

lemma change_timers:
  assumes "timerInv s" and "languageId d = ''veyra''"
  shows "\<exists>s'. step (DidChange d) s = Returns s'
           \<and> timers s' = [(nextTimer s, uri d)] \<and> timeoutId s' = Some (nextTimer s)
           \<and> spawned s' = spawned s \<and> inFlight s' = inFlight s
           \<and> compilerPath s' = compilerPath s
           \<and> diagnosticCollection s' = diagnosticCollection s
           \<and> documents s' (uri d) = d"
  using assms
  by (auto simp: timerInv_def setTimeout_def clearTimeout_def split: option.splits)

lemma timerInv_step:
  assumes "timerInv s" and "step e s = Returns s'"
  shows "timerInv s'"
proof (cases e)
  case (DidOpen d)
  then show ?thesis using assms by (auto simp: timerInv_def)
next
  case (DidChange d)
  show ?thesis
  proof (cases "languageId d = ''veyra''")
    case True
    from change_timers[OF assms(1) True] assms(2) DidChange show ?thesis
      by (auto simp: timerInv_def)
  next
    case False
    then show ?thesis using assms DidChange by (auto simp: timerInv_def)
  qed
next
  case (DidSave d)
  then show ?thesis using assms by (auto simp: timerInv_def)
next
  case (DidClose d)
  then show ?thesis using assms by (auto simp: timerInv_def)
next
  case (TimerFires h)
  then show ?thesis using assms
    by (auto simp: timerInv_def clearTimeout_def split: option.splits if_splits)
next
  case (ExecSettles i r)
  then show ?thesis using assms
    by (auto simp: timerInv_def validateDocument_settled_def split: if_splits result.splits)
qed

lemma timerInv_afterRejection: "timerInv s \<Longrightarrow> timerInv (afterRejection e s)"
  by (cases e) (simp_all add: timerInv_def)

lemma timerInv_run:
  "timerInv s \<Longrightarrow> run es s = Returns s' \<Longrightarrow> timerInv s'"
proof (induction es arbitrary: s)
  case Nil
  then show ?case by simp
next
  case (Cons e es)
  then show ?case
    by (auto split: result.splits dest: timerInv_step timerInv_afterRejection[of _ e])
qed

lemma reachable_timerInv:
  "run es (initialState cp docs) = Returns s \<Longrightarrow> timerInv s"
  using timerInv_run[OF timerInv_initial] .

lemma compilerPath_step: "step e s = Returns s' \<Longrightarrow> compilerPath s' = compilerPath s"
  by (cases e)
     (auto simp: validateDocument_def see_def setTimeout_def clearTimeout_def
        validateDocument_settled_def split: option.splits if_splits result.splits)

lemma compilerPath_afterRejection: "compilerPath (afterRejection e s) = compilerPath s"
  by (cases e) simp_all

lemma compilerPath_run: "run es s = Returns s' \<Longrightarrow> compilerPath s' = compilerPath s"
proof (induction es arbitrary: s)
  case Nil
  then show ?case by simp
next
  case (Cons e es)
  show ?case
  proof (cases "step e s")
    case (Returns s1)
    then show ?thesis using Cons compilerPath_step[OF Returns] by simp
  next
    case (Throws x)
    then show ?thesis using Cons compilerPath_afterRejection[of e s] by simp
  next
    case Diverges
    then show ?thesis using Cons by simp
  qed
qed

definition documentA :: textDocument where
  "documentA = \<lparr> uri = ''/ws/a.vey'', languageId = ''veyra'', lines = [''let a = 1;''] \<rparr>"

definition documentB :: textDocument where
  "documentB = \<lparr> uri = ''/ws/b.vey'', languageId = ''veyra'', lines = [''let b = 2;''] \<rparr>"

definition noDocuments :: "string \<Rightarrow> textDocument" where
  "noDocuments u = \<lparr> uri = u, languageId = ''veyra'', lines = [[]] \<rparr>"

lemma fire_pending:
  assumes "timers s = [(h, u)]" and "uri (documents s u) = u"
  shows "\<exists>s'. step (TimerFires h) s = Returns s' \<and> timers s' = []
           \<and> spawned s' = spawned s
                @ (case compilerPath s of Some cp \<Rightarrow> [checkCommand cp u] | None \<Rightarrow> [])
           \<and> inFlight s' = inFlight s
                @ (case compilerPath s of Some cp \<Rightarrow> [(checkCommand cp u, u)] | None \<Rightarrow> [])
           \<and> (compilerPath s = None \<longrightarrow> diagnosticCollection s' u = None)"
  using assms by (cases "compilerPath s") (simp_all add: validateDocument_def clearTimeout_def)

lemma fire_other:
  assumes "timers s = [(h, u)]" and "h' \<noteq> h"
  shows "step (TimerFires h') s = Returns s"
  using assms by simp

text \<open>
  Claim C7 (amended). Three change events to one Veyra document with no timeout firing
  between them start no process and leave exactly one timeout pending, that of the third
  event: each event clears the timeout armed before it and arms a new one. When that
  timeout fires, \<^verbatim>\<open>validateDocument\<close> runs once and no timeout is left: it starts exactly
  one process, for that document, when a compiler was found at activation, and it starts
  none and clears the diagnostics of the document when \<^verbatim>\<open>compilerPath\<close> is null. Any other
  timeout handle firing does nothing.
\<close>

theorem three_changes_one_validation:
  assumes "run evs (initialState cp docs) = Returns s"
    and "languageId d1 = ''veyra''" and "languageId d2 = ''veyra''"
    and "languageId d3 = ''veyra''"
    and "uri d1 = u" and "uri d2 = u" and "uri d3 = u"
  shows "\<exists>s1 s2 s3 h1 h2 h3 s4.
           step (DidChange d1) s = Returns s1 \<and> timers s1 = [(h1, u)]
         \<and> step (DidChange d2) s1 = Returns s2 \<and> timers s2 = [(h2, u)] \<and> h2 \<noteq> h1
         \<and> step (DidChange d3) s2 = Returns s3 \<and> timers s3 = [(h3, u)] \<and> h3 \<noteq> h2
         \<and> run [DidChange d1, DidChange d2, DidChange d3] s = Returns s3
         \<and> spawned s3 = spawned s
         \<and> step (TimerFires h3) s3 = Returns s4
         \<and> spawned s4 = spawned s
              @ (case cp of Some c \<Rightarrow> [checkCommand c u] | None \<Rightarrow> [])
         \<and> (cp = None \<longrightarrow> diagnosticCollection s4 u = None)
         \<and> timers s4 = []
         \<and> (\<forall>h. h \<noteq> h3 \<longrightarrow> step (TimerFires h) s3 = Returns s3)"
proof -
  have inv: "timerInv s" using reachable_timerInv[OF assms(1)] .
  have cp: "compilerPath s = cp"
    using compilerPath_run[OF assms(1)] by (simp add: initialState_def)
  obtain s1 where s1: "step (DidChange d1) s = Returns s1" "timers s1 = [(nextTimer s, u)]"
      "timeoutId s1 = Some (nextTimer s)" "spawned s1 = spawned s" "compilerPath s1 = cp"
    using change_timers[OF inv assms(2)] assms(5) cp by auto
  have inv1: "timerInv s1" using timerInv_step[OF inv s1(1)] .
  have n1: "nextTimer s1 = Suc (nextTimer s)"
    using s1(1) assms(2) inv
    by (auto simp: setTimeout_def clearTimeout_def split: option.splits)
  obtain s2 where s2: "step (DidChange d2) s1 = Returns s2" "timers s2 = [(nextTimer s1, u)]"
      "spawned s2 = spawned s1" "compilerPath s2 = cp"
    using change_timers[OF inv1 assms(3)] assms(6) s1(5) by auto
  have inv2: "timerInv s2" using timerInv_step[OF inv1 s2(1)] .
  have n2: "nextTimer s2 = Suc (nextTimer s1)"
    using s2(1) assms(3) inv1
    by (auto simp: setTimeout_def clearTimeout_def split: option.splits)
  obtain s3 where s3: "step (DidChange d3) s2 = Returns s3" "timers s3 = [(nextTimer s2, u)]"
      "spawned s3 = spawned s2" "compilerPath s3 = cp" "documents s3 u = d3"
    using change_timers[OF inv2 assms(4)] assms(7) s2(4) by auto
  have u3: "uri (documents s3 u) = u" using s3(5) assms(7) by simp
  obtain s4 where s4: "step (TimerFires (nextTimer s2)) s3 = Returns s4" "timers s4 = []"
      "spawned s4 = spawned s3 @ (case cp of Some c \<Rightarrow> [checkCommand c u] | None \<Rightarrow> [])"
      "cp = None \<longrightarrow> diagnosticCollection s4 u = None"
    using fire_pending[OF s3(2) u3] unfolding s3(4) by blast
  have other: "\<forall>h. h \<noteq> nextTimer s2 \<longrightarrow> step (TimerFires h) s3 = Returns s3"
    using fire_other[OF s3(2)] by blast
  have r: "run [DidChange d1, DidChange d2, DidChange d3] s = Returns s3"
    using s1(1) s2(1) s3(1) by simp
  show ?thesis
    using s1(1,2) s2(1,2) s3(1,2) r s4 other n1 n2 s1(4) s2(3) s3(3)
    by (intro exI[of _ s1] exI[of _ s2] exI[of _ s3] exI[of _ "nextTimer s"]
          exI[of _ "nextTimer s1"] exI[of _ "nextTimer s2"] exI[of _ s4]) simp
qed

text \<open>
  The same for three edits of document A right after the extension has started with a
  compiler.
\<close>

theorem three_changes_one_validation_witness:
  "\<exists>s3 h3 s4.
       run [DidChange documentA, DidChange (documentA\<lparr> lines := [''let a = 12;''] \<rparr>),
            DidChange (documentA\<lparr> lines := [''let a = 123;''] \<rparr>)]
         (initialState (Some ''veyc'') noDocuments) = Returns s3
     \<and> spawned s3 = [] \<and> timers s3 = [(h3, ''/ws/a.vey'')]
     \<and> step (TimerFires h3) s3 = Returns s4
     \<and> spawned s4 = [checkCommand ''veyc'' ''/ws/a.vey''] \<and> timers s4 = []"
proof -
  have r: "run [] (initialState (Some ''veyc'') noDocuments)
             = Returns (initialState (Some ''veyc'') noDocuments)"
    by simp
  have sp: "spawned (initialState (Some ''veyc'') noDocuments) = []"
    by (simp add: initialState_def)
  from three_changes_one_validation[OF r, of documentA
      "documentA\<lparr> lines := [''let a = 12;''] \<rparr>" "documentA\<lparr> lines := [''let a = 123;''] \<rparr>"
      "''/ws/a.vey''"]
  show ?thesis unfolding sp by (simp add: documentA_def) blast
qed

text \<open>
  Claim C7 as it is written fails: when no compiler was found, three change events to
  document A arm the third timeout, and when it fires (or any other does) no process is
  started.
\<close>

theorem no_compiler_no_invocation_counterexample:
  "map_result (\<lambda>s. map snd (timers s))
     (run [DidChange documentA, DidChange documentA, DidChange documentA]
        (initialState None noDocuments))
     = Returns [''/ws/a.vey'']
   \<and> map_result spawned
     (run [DidChange documentA, DidChange documentA, DidChange documentA,
           TimerFires 0, TimerFires 1, TimerFires 2]
        (initialState None noDocuments))
     = Returns []"
  by (simp add: documentA_def initialState_def setTimeout_def clearTimeout_def
        see_def validateDocument_def)

text \<open>
  Claim C6 (amended). The scheduling state is one timeout shared by all documents: a
  change event on a Veyra document clears the pending timeout, whichever document it was
  armed for, and arms one for the changed document, so that after the event the only
  debounced validation that is pending is that of the changed document. The event touches
  neither the validations that are running nor the published diagnostics.
\<close>

theorem change_replaces_pending_validation:
  assumes "run evs (initialState cp docs) = Returns s" and "languageId d = ''veyra''"
  shows "\<exists>s'. step (DidChange d) s = Returns s'
           \<and> map snd (timers s') = [uri d]
           \<and> inFlight s' = inFlight s \<and> spawned s' = spawned s
           \<and> diagnosticCollection s' = diagnosticCollection s"
  using change_timers[OF reachable_timerInv[OF assms(1)] assms(2)] by auto

text \<open>The same for a change of document B while a validation of document A is pending.\<close>

theorem change_replaces_pending_validation_witness:
  "\<exists>s s'. run [DidChange documentA] (initialState (Some ''veyc'') noDocuments) = Returns s
       \<and> map snd (timers s) = [''/ws/a.vey'']
       \<and> step (DidChange documentB) s = Returns s'
       \<and> map snd (timers s') = [''/ws/b.vey'']"
proof -
  obtain s where s: "run [DidChange documentA] (initialState (Some ''veyc'') noDocuments) = Returns s"
    "map snd (timers s) = [''/ws/a.vey'']"
    by (simp add: documentA_def initialState_def setTimeout_def see_def)
  from change_replaces_pending_validation[OF s(1), of documentB] obtain s' where
    s': "step (DidChange documentB) s = Returns s'" "map snd (timers s') = [''/ws/b.vey'']"
    by (auto simp: documentB_def)
  show ?thesis using s s' by (intro exI[of _ s] exI[of _ s']) simp
qed

text \<open>
  Claim C6 as it is written fails: a change of document B, arriving while the debounced
  validation of document A is pending, cancels it. Only the timeout of B is left, and
  when it fires only B is validated.
\<close>

theorem change_cancels_other_document_counterexample:
  "map_result (\<lambda>s. map snd (timers s))
     (run [DidChange documentA] (initialState (Some ''veyc'') noDocuments))
     = Returns [''/ws/a.vey'']
   \<and> map_result (\<lambda>s. map snd (timers s))
     (run [DidChange documentA, DidChange documentB] (initialState (Some ''veyc'') noDocuments))
     = Returns [''/ws/b.vey'']
   \<and> map_result spawned
     (run [DidChange documentA, DidChange documentB, TimerFires 0, TimerFires 1]
        (initialState (Some ''veyc'') noDocuments))
     = Returns [checkCommand ''veyc'' ''/ws/b.vey'']"
  by (simp add: documentA_def documentB_def initialState_def setTimeout_def clearTimeout_def
        see_def validateDocument_def)

definition warnedCheck :: execResult where
  "warnedCheck = \<lparr> outcome = Exited 0, stdout = [],
     stderr = ''error: line 1, column 5: unused variable warning'',
     bufferExceeded = False, errorMessage = [] \<rparr>"

definition staleCheck :: execResult where
  "staleCheck = \<lparr> outcome = Exited 1, stdout = [],
     stderr = ''error: line 1, column 1: stale'',
     bufferExceeded = False, errorMessage = ''Command failed'' \<rparr>"

definition freshCheck :: execResult where
  "freshCheck = \<lparr> outcome = Exited 1, stdout = [],
     stderr = ''error: line 1, column 5: fresh'',
     bufferExceeded = False, errorMessage = ''Command failed'' \<rparr>"

lemma settled_cleared:
  assumes "fulfilled r"
  shows "\<exists>s'. validateDocument_settled r u s = Returns s' \<and> diagnosticCollection s' u = None
           \<and> (\<forall>v. v \<noteq> u \<longrightarrow> diagnosticCollection s' v = diagnosticCollection s v)
           \<and> inFlight s' = inFlight s"
  using assms by (simp add: validateDocument_settled_def)

lemma settled_published:
  assumes "\<not> fulfilled r" and "lines (documents s u) \<noteq> []"
    and "\<forall>m \<in> set (allMatches (errorText r)). \<not> blankMessage m"
  shows "\<exists>s' ds. validateDocument_settled r u s = Returns s'
           \<and> parseCompilerErrors (errorText r) (documents s u) = Returns ds
           \<and> diagnosticCollection s' u = Some ds
           \<and> (\<forall>v. v \<noteq> u \<longrightarrow> diagnosticCollection s' v = diagnosticCollection s v)
           \<and> inFlight s' = inFlight s"
proof -
  obtain ds where "parseCompilerErrors (errorText r) (documents s u) = Returns ds"
    using parseCompilerErrors_allMatches[OF assms(2,3)] by blast
  then show ?thesis using assms(1) by (simp add: validateDocument_settled_def)
qed

text \<open>
  When the promise is rejected and the message of some match is blank, the parser throws
  in the \<^verbatim>\<open>catch\<close> block and nothing is published.
\<close>

lemma settled_throws:
  assumes "\<not> fulfilled r" and "lines (documents s u) \<noteq> []"
    and "\<exists>m \<in> set (allMatches (errorText r)). blankMessage m"
  shows "validateDocument_settled r u s = Throws MessageNotSet"
  using parseCompilerErrors_blank[OF assms(2,3)] assms(1)
  by (simp add: validateDocument_settled_def)

text \<open>
  Claim C3 (amended). What is published when a validation run ends depends on how the
  compiler ended. When the promise of \<^verbatim>\<open>exec\<close> is fulfilled (exit status 0 and output within
  the buffer) the diagnostics of the document are cleared, whatever the output contains.
  When it is rejected (another exit status, a timeout, a process that could not be
  started, output beyond the buffer) and no recognised message is blank, the diagnostics
  parsed from the first non-empty one of stderr, stdout and the error message are
  published.
\<close>

theorem validation_branches_on_fulfilment:
  "(fulfilled r \<longrightarrow>
      (\<exists>s'. validateDocument_settled r u s = Returns s' \<and> diagnosticCollection s' u = None))
   \<and> (\<not> fulfilled r \<and> lines (documents s u) \<noteq> []
        \<and> (\<forall>m \<in> set (allMatches (errorText r)). \<not> blankMessage m) \<longrightarrow>
      (\<exists>s' ds. validateDocument_settled r u s = Returns s'
          \<and> parseCompilerErrors (errorText r) (documents s u) = Returns ds
          \<and> diagnosticCollection s' u = Some ds))"
  using settled_cleared[of r u s] settled_published[of r s u] by blast

text \<open>
  The same for document A: the output of a failed check is published; the same output
  after exit status 0 is not; and it is published again when the process exits with
  status 0 after its output has gone beyond the buffer.
\<close>

theorem validation_branches_on_fulfilment_witness:
  "(\<exists>s' ds. validateDocument_settled freshCheck ''/ws/a.vey''
                (see documentA (initialState (Some ''veyc'') noDocuments)) = Returns s'
          \<and> parseCompilerErrors ''error: line 1, column 5: fresh'' documentA = Returns ds
          \<and> diagnosticCollection s' ''/ws/a.vey'' = Some ds)
   \<and> (\<exists>s'. validateDocument_settled (freshCheck\<lparr> outcome := Exited 0 \<rparr>) ''/ws/a.vey''
                (see documentA (initialState (Some ''veyc'') noDocuments)) = Returns s'
          \<and> diagnosticCollection s' ''/ws/a.vey'' = None)
   \<and> (\<exists>s' ds. validateDocument_settled
                (freshCheck\<lparr> outcome := Exited 0, bufferExceeded := True \<rparr>) ''/ws/a.vey''
                (see documentA (initialState (Some ''veyc'') noDocuments)) = Returns s'
          \<and> parseCompilerErrors ''error: line 1, column 5: fresh'' documentA = Returns ds
          \<and> diagnosticCollection s' ''/ws/a.vey'' = Some ds)"
proof -
  let ?s = "see documentA (initialState (Some ''veyc'') noDocuments)"
  let ?big = "freshCheck\<lparr> outcome := Exited 0, bufferExceeded := True \<rparr>"
  have d: "documents ?s ''/ws/a.vey'' = documentA" by (simp add: see_def documentA_def)
  have e: "errorText freshCheck = ''error: line 1, column 5: fresh''"
    "errorText ?big = ''error: line 1, column 5: fresh''"
    by (simp_all add: errorText_def freshCheck_def)
  have nb: "\<forall>m \<in> set (allMatches ''error: line 1, column 5: fresh''). \<not> blankMessage m"
  proof -
    have "map (\<lambda>m. trim (matchGroup m 3)) (allMatches ''error: line 1, column 5: fresh'')
            = [''fresh'']"
      by code_simp
    then show ?thesis by (auto simp: blankMessage_def)
  qed
  have l: "lines (documents ?s ''/ws/a.vey'') \<noteq> []" unfolding d by (simp add: documentA_def)
  have f: "\<not> fulfilled freshCheck" "fulfilled (freshCheck\<lparr> outcome := Exited 0 \<rparr>)"
    "\<not> fulfilled ?big"
    by (simp_all add: fulfilled_def freshCheck_def)
  show ?thesis
    using validation_branches_on_fulfilment[of freshCheck "''/ws/a.vey''" ?s]
      validation_branches_on_fulfilment[of "freshCheck\<lparr> outcome := Exited 0 \<rparr>" "''/ws/a.vey''" ?s]
      validation_branches_on_fulfilment[of ?big "''/ws/a.vey''" ?s]
      f l nb
    unfolding d e by blast
qed

text \<open>
  Claim C3 as it is written fails: the compiler exits with status 0 and prints a text that
  the fourth pattern recognises (parsed, it is one warning), and the diagnostics of the
  document are cleared.
\<close>

theorem zero_exit_clears_counterexample:
  "parseCompilerErrors (errorText warnedCheck) documentA =
     Returns [\<lparr> range = \<lparr> startLine = 0, startCharacter = 4, endLine = 0, endCharacter = 5 \<rparr>,
                 message = ''unused variable warning'', severity = Warning,
                 diagSource = ''veyra'' \<rparr>]
   \<and> map_result (\<lambda>s. diagnosticCollection s ''/ws/a.vey'')
       (run [DidOpen documentA, ExecSettles 0 freshCheck, DidSave documentA,
             ExecSettles 0 warnedCheck]
          (initialState (Some ''veyc'') noDocuments))
     = Returns None"
  by code_simp

text \<open>
  Claim C5 (amended). Runs carry no sequence number, and no completion is discarded
  because a run that was started later has published. When a running validation ends, at
  whatever position among the running ones, and the parser does not meet a blank message,
  its result replaces the published diagnostics of its document: they are cleared when
  the promise of \<^verbatim>\<open>exec\<close> is fulfilled, and set to the parsed diagnostics when it is
  rejected. The diagnostics of the other documents and the other running validations stay
  as they are.
\<close>

theorem every_completion_publishes:
  assumes "i < length (inFlight s)" and "u = snd (inFlight s ! i)"
    and "lines (documents s u) \<noteq> []"
    and "fulfilled r \<or> (\<forall>m \<in> set (allMatches (errorText r)). \<not> blankMessage m)"
  shows "\<exists>s'. step (ExecSettles i r) s = Returns s'
           \<and> inFlight s' = take i (inFlight s) @ drop (Suc i) (inFlight s)
           \<and> (if fulfilled r then diagnosticCollection s' u = None
               else \<exists>ds. parseCompilerErrors (errorText r) (documents s u) = Returns ds
                         \<and> diagnosticCollection s' u = Some ds)
           \<and> (\<forall>v. v \<noteq> u \<longrightarrow> diagnosticCollection s' v = diagnosticCollection s v)"
proof -
  let ?s = "s\<lparr> inFlight := take i (inFlight s) @ drop (Suc i) (inFlight s) \<rparr>"
  have st: "step (ExecSettles i r) s = validateDocument_settled r u ?s"
    using assms(1,2) by simp
  show ?thesis
  proof (cases "fulfilled r")
    case True
    from settled_cleared[OF True, of u ?s] show ?thesis unfolding st using True by auto
  next
    case False
    have "lines (documents ?s u) \<noteq> []" using assms(3) by simp
    moreover have "\<forall>m \<in> set (allMatches (errorText r)). \<not> blankMessage m"
      using assms(4) False by simp
    ultimately show ?thesis
      using settled_published[OF False, of ?s u] unfolding st using False by auto
  qed
qed

text \<open>
  The same with two validations of document A running: the older one ends first and
  publishes.
\<close>

theorem every_completion_publishes_witness:
  "\<exists>s s' ds. run [DidOpen documentA, DidSave documentA]
                (initialState (Some ''veyc'') noDocuments) = Returns s
       \<and> length (inFlight s) = 2
       \<and> step (ExecSettles 0 staleCheck) s = Returns s'
       \<and> length (inFlight s') = 1
       \<and> parseCompilerErrors ''error: line 1, column 1: stale'' documentA = Returns ds
       \<and> diagnosticCollection s' ''/ws/a.vey'' = Some ds"
proof -
  obtain s where s: "run [DidOpen documentA, DidSave documentA]
                (initialState (Some ''veyc'') noDocuments) = Returns s"
    and f: "inFlight s = [(checkCommand ''veyc'' ''/ws/a.vey'', ''/ws/a.vey''),
                          (checkCommand ''veyc'' ''/ws/a.vey'', ''/ws/a.vey'')]"
    and d: "documents s ''/ws/a.vey'' = documentA"
    by (simp add: documentA_def initialState_def see_def validateDocument_def)
  have i: "0 < length (inFlight s)" and u: "''/ws/a.vey'' = snd (inFlight s ! 0)"
    and l: "lines (documents s ''/ws/a.vey'') \<noteq> []"
    by (simp_all add: f d documentA_def)
  have o: "\<not> fulfilled staleCheck"
    and e: "errorText staleCheck = ''error: line 1, column 1: stale''"
    by (simp_all add: staleCheck_def errorText_def fulfilled_def)
  have nb: "fulfilled staleCheck
            \<or> (\<forall>m \<in> set (allMatches (errorText staleCheck)). \<not> blankMessage m)"
  proof -
    have "map (\<lambda>m. trim (matchGroup m 3)) (allMatches ''error: line 1, column 1: stale'')
            = [''stale'']"
      by code_simp
    then show ?thesis unfolding e by (auto simp: blankMessage_def)
  qed
  from every_completion_publishes[OF i u l nb] obtain s' ds where
    "step (ExecSettles 0 staleCheck) s = Returns s'"
    "inFlight s' = take 0 (inFlight s) @ drop (Suc 0) (inFlight s)"
    "parseCompilerErrors ''error: line 1, column 1: stale'' documentA = Returns ds"
    "diagnosticCollection s' ''/ws/a.vey'' = Some ds"
    using o unfolding e d by auto
  then show ?thesis using s f
    by (intro exI[of _ s] exI[of _ s'] exI[of _ ds]) simp
qed

text \<open>
  Claim C5 as it is written fails: two validations of document A are running; the one
  started later ends first and publishes its diagnostic; then the one started earlier
  ends, and its diagnostic replaces the newer one.
\<close>

theorem stale_run_overwrites_counterexample:
  "map_result (\<lambda>s. map_option (map message) (diagnosticCollection s ''/ws/a.vey''))
     (run [DidOpen documentA, DidSave documentA, ExecSettles 1 freshCheck]
        (initialState (Some ''veyc'') noDocuments))
     = Returns (Some [''fresh''])
   \<and> map_result (\<lambda>s. map_option (map message) (diagnosticCollection s ''/ws/a.vey''))
     (run [DidOpen documentA, DidSave documentA, ExecSettles 1 freshCheck,
           ExecSettles 0 staleCheck]
        (initialState (Some ''veyc'') noDocuments))
     = Returns (Some [''stale''])"
  by code_simp

end
